theory Spec2Isabelle
  imports Main
begin

section \<open>The Go library functions the normalizer calls\<close>

text \<open>
  Go strings are byte sequences; \<^typ>\<open>string\<close> is a list of 8-bit characters, so a
  Go string is modelled byte for byte.  The functions of this section belong to the Go
  standard library and to \<^verbatim>\<open>github.com/asaskevich/govalidator\<close>; they are transcribed
  from those libraries, under the names the normalizer calls them by.
\<close>

subsection \<open>strings.Split, strings.Join, strings.Contains\<close>

text \<open>\<^verbatim>\<open>strings.Split(s, sep)\<close> for a one-byte separator: one more item than there are
  separators in \<open>s\<close>, never the empty slice.\<close>

fun strings_Split :: "string \<Rightarrow> char \<Rightarrow> string list" where
  "strings_Split [] sep = [[]]"
| "strings_Split (c # cs) sep =
     (if c = sep then [] # strings_Split cs sep
      else (case strings_Split cs sep of
              [] \<Rightarrow> [[c]]
            | item # items \<Rightarrow> (c # item) # items))"

text \<open>\<^verbatim>\<open>strings.Join(elems, sep)\<close>.\<close>

fun strings_Join :: "string list \<Rightarrow> string \<Rightarrow> string" where
  "strings_Join [] sep = []"
| "strings_Join [x] sep = x"
| "strings_Join (x # y # ys) sep = x @ sep @ strings_Join (y # ys) sep"

fun strings_HasPrefix :: "string \<Rightarrow> string \<Rightarrow> bool" where
  "strings_HasPrefix s [] = True"
| "strings_HasPrefix [] (p # ps) = False"
| "strings_HasPrefix (c # cs) (p # ps) = (c = p \<and> strings_HasPrefix cs ps)"

fun strings_Contains :: "string \<Rightarrow> string \<Rightarrow> bool" where
  "strings_Contains [] sub = (sub = [])"
| "strings_Contains (c # cs) sub = (strings_HasPrefix (c # cs) sub \<or> strings_Contains cs sub)"

subsection \<open>path.Clean\<close>

text \<open>
  \<^verbatim>\<open>path.Clean\<close> reads the path one element at a time and keeps the elements of the
  result in a buffer: an empty element and \<^verbatim>\<open>.\<close> are dropped; \<^verbatim>\<open>..\<close> removes the last
  element of the buffer when there is one that is not itself a leading \<^verbatim>\<open>..\<close> (Go's
  \<^verbatim>\<open>out.w > dotdot\<close>), is dropped when the path is rooted, and is kept otherwise; any
  other element is appended.  \<open>cleanElems\<close> is that loop; its buffer holds the elements
  newest first.
\<close>

fun cleanElems :: "bool \<Rightarrow> string list \<Rightarrow> string list \<Rightarrow> string list" where
  "cleanElems rooted out [] = out"
| "cleanElems rooted out (e # es) =
     (if e = [] \<or> e = ''.'' then cleanElems rooted out es
      else if e = ''..'' then
        (if out \<noteq> [] \<and> hd out \<noteq> ''..'' then cleanElems rooted (tl out) es
         else if \<not> rooted then cleanElems rooted (''..'' # out) es
         else cleanElems rooted out es)
      else cleanElems rooted (e # out) es)"

definition path_Clean :: "string \<Rightarrow> string" where
  "path_Clean p =
     (if p = [] then ''.''
      else
        let rooted = (hd p = CHR ''/'');
            out = rev (cleanElems rooted [] (strings_Split p (CHR ''/'')))
        in if rooted then CHR ''/'' # strings_Join out ''/''
           else if out = [] then ''.''
           else strings_Join out ''/'')"

subsection \<open>govalidator: hashes, numbers, UUIDs\<close>

definition isDigit :: "char \<Rightarrow> bool" where
  "isDigit c = (c \<in> set ''0123456789'')"

definition isLowerHex :: "char \<Rightarrow> bool" where
  "isLowerHex c = (c \<in> set ''0123456789abcdef'')"

definition isHexDigit :: "char \<Rightarrow> bool" where
  "isHexDigit c = (c \<in> set ''0123456789abcdefABCDEF'')"

text \<open>\<^verbatim>\<open>IsMD5\<close>, \<^verbatim>\<open>IsSHA1\<close>, \<^verbatim>\<open>IsSHA256\<close> are \<^verbatim>\<open>IsHash\<close> at the lengths 32, 40 and 64:
  the regular expression \<^verbatim>\<open>^[a-f0-9]{len}$\<close>.\<close>

definition IsHash :: "string \<Rightarrow> nat \<Rightarrow> bool" where
  "IsHash str len = (length str = len \<and> list_all isLowerHex str)"

definition IsMD5 :: "string \<Rightarrow> bool" where
  "IsMD5 str = IsHash str 32"

definition IsSHA1 :: "string \<Rightarrow> bool" where
  "IsSHA1 str = IsHash str 40"

definition IsSHA256 :: "string \<Rightarrow> bool" where
  "IsSHA256 str = IsHash str 64"

text \<open>\<^verbatim>\<open>IsNumeric\<close>: true on the empty string, else \<^verbatim>\<open>^[0-9]+$\<close>.
  \<^verbatim>\<open>IsHexadecimal\<close>: \<^verbatim>\<open>^[0-9a-fA-F]+$\<close>.\<close>

definition IsNumeric :: "string \<Rightarrow> bool" where
  "IsNumeric str = (str = [] \<or> list_all isDigit str)"

definition IsHexadecimal :: "string \<Rightarrow> bool" where
  "IsHexadecimal str = (str \<noteq> [] \<and> list_all isHexDigit str)"

text \<open>A UUID is five groups of lower-case hexadecimal digits, of the lengths 8, 4, 4, 4
  and 12, joined by \<^verbatim>\<open>-\<close>; version 4 wants \<^verbatim>\<open>4\<close> to open the third group and one of
  \<^verbatim>\<open>89ab\<close> to open the fourth.\<close>

definition uuidGroups :: "string \<Rightarrow> bool" where
  "uuidGroups str =
     (map length (strings_Split str (CHR ''-'')) = [8, 4, 4, 4, 12] \<and>
      list_all (list_all isLowerHex) (strings_Split str (CHR ''-'')))"

definition IsUUID :: "string \<Rightarrow> bool" where
  "IsUUID str = uuidGroups str"

definition IsUUIDv4 :: "string \<Rightarrow> bool" where
  "IsUUIDv4 str =
     (uuidGroups str \<and> str ! 14 = CHR ''4'' \<and> str ! 19 \<in> set ''89ab'')"

subsection \<open>net.ParseIP, behind govalidator.IsIP\<close>

text \<open>
  \<^verbatim>\<open>IsIP(str)\<close> is \<^verbatim>\<open>net.ParseIP(str) != nil\<close>.  The functions below follow the parser of
  the Go release the repository builds with (1.16) and keep of its result only whether
  it is nil.  \<open>dtoi\<close> and \<open>xtoi\<close> read a decimal and a hexadecimal number off the front
  of a string and return the number, the count of bytes read and whether that went well;
  the number stays below \<open>big\<close>, far from the limit of a Go \<^verbatim>\<open>int\<close>.
\<close>

definition big :: int where
  "big = 0xFFFFFF"

definition digitVal :: "char \<Rightarrow> int" where
  "digitVal c = of_char c - 48"

definition hexVal :: "char \<Rightarrow> int" where
  "hexVal c =
     (if isDigit c then of_char c - 48
      else if c \<in> set ''abcdef'' then of_char c - 97 + 10
      else of_char c - 65 + 10)"

fun dtoiLoop :: "int \<Rightarrow> nat \<Rightarrow> string \<Rightarrow> int \<times> nat \<times> bool" where
  "dtoiLoop n i [] = (if i = 0 then (0, 0, False) else (n, i, True))"
| "dtoiLoop n i (c # cs) =
     (if isDigit c then
        (if n * 10 + digitVal c \<ge> big then (big, i, False)
         else dtoiLoop (n * 10 + digitVal c) (Suc i) cs)
      else if i = 0 then (0, 0, False) else (n, i, True))"

definition dtoi :: "string \<Rightarrow> int \<times> nat \<times> bool" where
  "dtoi s = dtoiLoop 0 0 s"

fun xtoiLoop :: "int \<Rightarrow> nat \<Rightarrow> string \<Rightarrow> int \<times> nat \<times> bool" where
  "xtoiLoop n i [] = (if i = 0 then (0, i, False) else (n, i, True))"
| "xtoiLoop n i (c # cs) =
     (if isHexDigit c then
        (if n * 16 + hexVal c \<ge> big then (0, i, False)
         else xtoiLoop (n * 16 + hexVal c) (Suc i) cs)
      else if i = 0 then (0, i, False) else (n, i, True))"

definition xtoi :: "string \<Rightarrow> int \<times> nat \<times> bool" where
  "xtoi s = xtoiLoop 0 0 s"

text \<open>\<open>parseIPv4Loop r s\<close> is the loop of \<^verbatim>\<open>parseIPv4\<close> with \<open>r\<close> of the four octets
  still to read: every octet but the first follows a dot, and nothing may follow the
  last.\<close>

fun parseIPv4Loop :: "nat \<Rightarrow> string \<Rightarrow> bool" where
  "parseIPv4Loop 0 s = (s = [])"
| "parseIPv4Loop (Suc r) s =
     (if s = [] then False
      else if Suc r < 4 \<and> hd s \<noteq> CHR ''.'' then False
      else
        let s1 = (if Suc r < 4 then tl s else s);
            n = fst (dtoi s1); c = fst (snd (dtoi s1)); ok = snd (snd (dtoi s1))
        in if \<not> ok \<or> n > 0xFF then False else parseIPv4Loop r (drop c s1))"

definition parseIPv4 :: "string \<Rightarrow> bool" where
  "parseIPv4 s = parseIPv4Loop 4 s"

text \<open>The loop of \<^verbatim>\<open>parseIPv6\<close>: \<open>i\<close> counts the bytes of the address filled so far,
  \<open>ellipsis\<close> is the position of \<^verbatim>\<open>::\<close> when one was read.  \<open>None\<close> is the nil result;
  otherwise the loop leaves with the final \<open>i\<close>, \<open>ellipsis\<close> and the unread input.\<close>

function parseIPv6Loop :: "nat \<Rightarrow> nat option \<Rightarrow> string \<Rightarrow> (nat \<times> nat option \<times> string) option" where
  "parseIPv6Loop i ellipsis s =
     (let n = fst (xtoi s); c = fst (snd (xtoi s)); ok = snd (snd (xtoi s)) in
      if \<not> i < 16 then Some (i, ellipsis, s)
      else if \<not> ok \<or> n > 0xFFFF then None
      else if c < length s \<and> s ! c = CHR ''.'' then
        (if ellipsis = None \<and> i \<noteq> 12 then None
         else if i + 4 > 16 then None
         else if \<not> parseIPv4 s then None
         else Some (i + 4, ellipsis, []))
      else if drop c s = [] then Some (i + 2, ellipsis, [])
      else if hd (drop c s) \<noteq> CHR '':'' \<or> length (drop c s) = 1 then None
      else if hd (tl (drop c s)) = CHR '':'' then
        (if ellipsis \<noteq> None then None
         else if tl (tl (drop c s)) = [] then Some (i + 2, Some (i + 2), [])
         else parseIPv6Loop (i + 2) (Some (i + 2)) (tl (tl (drop c s))))
      else parseIPv6Loop (i + 2) ellipsis (tl (drop c s)))"
  by pat_completeness auto
termination
  by (relation "measure (\<lambda>(i, e, s). 16 - i)") auto

declare parseIPv6Loop.simps [simp del]

definition parseIPv6 :: "string \<Rightarrow> bool" where
  "parseIPv6 s =
     (let lead = (length s \<ge> 2 \<and> s ! 0 = CHR '':'' \<and> s ! 1 = CHR '':'');
          s0 = (if lead then drop 2 s else s)
      in if lead \<and> s0 = [] then True
         else
           (case parseIPv6Loop 0 (if lead then Some 0 else None) s0 of
              None \<Rightarrow> False
            | Some (i, ellipsis, rest) \<Rightarrow>
                if rest \<noteq> [] then False
                else if i < 16 then ellipsis \<noteq> None
                else ellipsis = None))"

text \<open>\<^verbatim>\<open>ParseIP\<close> looks for the first dot or colon and parses accordingly.\<close>

fun net_ParseIP_scan :: "string \<Rightarrow> string \<Rightarrow> bool" where
  "net_ParseIP_scan s [] = False"
| "net_ParseIP_scan s (c # cs) =
     (if c = CHR ''.'' then parseIPv4 s
      else if c = CHR '':'' then parseIPv6 s
      else net_ParseIP_scan s cs)"

definition IsIP :: "string \<Rightarrow> bool" where
  "IsIP str = net_ParseIP_scan str str"

subsection \<open>The two extension patterns\<close>

text \<open>
  \<^verbatim>\<open>(?i)\.(?:png|jpg|jpeg|svg|tif|tiff|gif|ico)$\<close> and \<^verbatim>\<open>(?i)\.(?:ttf|woff)$\<close> match a
  string that ends with a dot and one of the extensions.  Under \<^verbatim>\<open>(?i)\<close> Go matches a
  letter of the pattern against every character of its Unicode case-folding orbit: the
  letter in either case and, for \<^verbatim>\<open>s\<close>, also U+017F, which is the two bytes C5 BF in
  the UTF-8 that Go strings hold (\<^verbatim>\<open>k\<close>, the other letter with a third form, is in no
  extension).
\<close>

definition toUpperASCII :: "char \<Rightarrow> char" where
  "toUpperASCII c =
     (case map_of (zip ''abcdefghijklmnopqrstuvwxyz'' ''ABCDEFGHIJKLMNOPQRSTUVWXYZ'') c of
        None \<Rightarrow> c
      | Some u \<Rightarrow> u)"

fun matchFold :: "string \<Rightarrow> string \<Rightarrow> bool" where
  "matchFold [] s = (s = [])"
| "matchFold (p # ps) [] = False"
| "matchFold (p # ps) (c # cs) =
     ((c = p \<or> c = toUpperASCII p) \<and> matchFold ps cs \<or>
      p = CHR ''s'' \<and> c = CHR 0xC5 \<and> cs \<noteq> [] \<and> hd cs = CHR 0xBF \<and> matchFold ps (tl cs))"

fun endsWithFold :: "string \<Rightarrow> string \<Rightarrow> bool" where
  "endsWithFold [] pat = matchFold pat []"
| "endsWithFold (c # cs) pat = (matchFold pat (c # cs) \<or> endsWithFold cs pat)"

definition imageExtensionRegex :: "string \<Rightarrow> bool" where
  "imageExtensionRegex item =
     list_ex (\<lambda>ext. endsWithFold item (CHR ''.'' # ext))
       [''png'', ''jpg'', ''jpeg'', ''svg'', ''tif'', ''tiff'', ''gif'', ''ico'']"

definition fontExtensionRegex :: "string \<Rightarrow> bool" where
  "fontExtensionRegex item =
     list_ex (\<lambda>ext. endsWithFold item (CHR ''.'' # ext)) [''ttf'', ''woff'']"

subsection \<open>url.URL.Query\<close>

text \<open>
  \<^verbatim>\<open>URL.Query()\<close> parses \<^verbatim>\<open>RawQuery\<close> and drops the error.  In the Go release the
  repository builds with the pairs are separated by \<^verbatim>\<open>&\<close> or \<^verbatim>\<open>;\<close>; an empty pair
  is skipped; a pair is cut at its first \<^verbatim>\<open>=\<close>; key and value are unescaped
  (\<^verbatim>\<open>+\<close> is a space, \<^verbatim>\<open>%XX\<close> a byte) and a pair that does not unescape is skipped;
  the value is appended to the values of its key.
\<close>

fun url_QueryUnescape :: "string \<Rightarrow> string option" where
  "url_QueryUnescape [] = Some []"
| "url_QueryUnescape (c # cs) =
     (if c = CHR ''%'' then
        (case cs of
           h1 # h2 # rest \<Rightarrow>
             if isHexDigit h1 \<and> isHexDigit h2
             then map_option ((#) (char_of (16 * hexVal h1 + hexVal h2))) (url_QueryUnescape rest)
             else None
         | _ \<Rightarrow> None)
      else if c = CHR ''+'' then map_option ((#) CHR '' '') (url_QueryUnescape cs)
      else map_option ((#) c) (url_QueryUnescape cs))"

fun splitPairs :: "string \<Rightarrow> string list" where
  "splitPairs [] = [[]]"
| "splitPairs (c # cs) =
     (if c = CHR ''&'' \<or> c = CHR '';'' then [] # splitPairs cs
      else (case splitPairs cs of
              [] \<Rightarrow> [[c]]
            | pair # pairs \<Rightarrow> (c # pair) # pairs))"

type_synonym url_Values = "string \<rightharpoonup> string list"

fun parseQuery :: "url_Values \<Rightarrow> string list \<Rightarrow> url_Values" where
  "parseQuery m [] = m"
| "parseQuery m (pair # rest) =
     (if pair = [] then parseQuery m rest
      else
        (case url_QueryUnescape (takeWhile (\<lambda>c. c \<noteq> CHR ''='') pair) of
           None \<Rightarrow> parseQuery m rest
         | Some key \<Rightarrow>
             (case url_QueryUnescape (drop 1 (dropWhile (\<lambda>c. c \<noteq> CHR ''='') pair)) of
                None \<Rightarrow> parseQuery m rest
              | Some v \<Rightarrow>
                  parseQuery (m(key \<mapsto> (case m key of None \<Rightarrow> [] | Some vs \<Rightarrow> vs) @ [v])) rest)))"

record url_URL =
  Path :: string
  RawQuery :: string

definition url_Query :: "url_URL \<Rightarrow> url_Values" where
  "url_Query u = parseQuery Map.empty (splitPairs (RawQuery u))"

section \<open>The normalizer\<close>

subsection \<open>Data\<close>

text \<open>
  A compiled regular expression is used for \<^verbatim>\<open>MatchString\<close> only, so it is modelled by
  the set of strings it matches.  \<^verbatim>\<open>regexp.Compile\<close> is a parameter \<open>rc\<close> of every
  function that may compile: it maps an expression to its compiled form, or to \<open>None\<close>
  when the expression is not valid.
\<close>

type_synonym regexp = "string \<Rightarrow> bool"

type_synonym compiler = "string \<Rightarrow> regexp option"

datatype error =
    CompileError string  \<comment> \<open>\<^verbatim>\<open>failed to compile Regexp ...\<close>, returned by the constructor\<close>
  | Panic string         \<comment> \<open>the panic of \<^verbatim>\<open>regexp.MustCompile\<close>\<close>

definition regexp_MustCompile :: "compiler \<Rightarrow> string \<Rightarrow> error + regexp" where
  "regexp_MustCompile rc str = (case rc str of None \<Rightarrow> Inl (Panic str) | Some re \<Rightarrow> Inr re)"

definition eventKeyFieldSeparator :: string where "eventKeyFieldSeparator = '':''"
definition numberPlaceholder :: string where "numberPlaceholder = ''0''"
definition ipPlaceholder :: string where "ipPlaceholder = '':ip''"
definition hashPlaceholder :: string where "hashPlaceholder = '':hash''"
definition uuidPlaceholder :: string where "uuidPlaceholder = '':uuid''"
definition imagePlaceholder :: string where "imagePlaceholder = '':image''"
definition fontPlaceholder :: string where "fontPlaceholder = '':font''"
definition pathItemsSeparator :: string where "pathItemsSeparator = ''/''"

record replacer =
  regexpCompiled :: "regexp option"  \<comment> \<open>\<open>None\<close> is the nil pointer\<close>
  Regexp :: string
  Replacement :: string

record requestNormalizerConfig =
  GetParamWithEventIdentifier :: string
  ReplaceRules :: "replacer list"
  SanitizeHashes :: bool
  SanitizeNumbers :: bool
  SanitizeUids :: bool
  SanitizeIps :: bool
  SanitizeImages :: bool
  SanitizeFonts :: bool

text \<open>The \<^verbatim>\<open>observer\<close> field of the normalizer only receives wall-clock durations and
  is left out.\<close>

record requestNormalizer =
  getParamWithEventIdentifier :: string
  replaceRules :: "replacer list"
  sanitizeHashes :: bool
  sanitizeNumbers :: bool
  sanitizeUids :: bool
  sanitizeIps :: bool
  sanitizeImages :: bool
  sanitizeFonts :: bool

text \<open>Modelled from the spec: the event type \<^verbatim>\<open>event.HttpRequest\<close> is declared outside
  the normalizer's file.  The spec gives it a method, a structured URL (path and query)
  and a mutable event key; whatever else an event carries sits in the extension of the
  record, which no function below touches.\<close>

record HttpRequest =
  Method :: string
  URL :: url_URL
  EventKey :: string

subsection \<open>Rewrite rules\<close>

text \<open>\<open>process\<close> returns the rule as the call leaves it together with the new path: the
  rule is changed exactly when the expression had to be compiled on the spot.\<close>

definition process :: "compiler \<Rightarrow> replacer \<Rightarrow> string \<Rightarrow> error + (replacer \<times> string)" where
  "process rc n path =
     (case regexpCompiled n of
        None \<Rightarrow>
          (case regexp_MustCompile rc (Regexp n) of
             Inl e \<Rightarrow> Inl e
           | Inr re \<Rightarrow>
               Inr (n\<lparr>regexpCompiled := Some re\<rparr>, if re path then Replacement n else path))
      | Some re \<Rightarrow> Inr (n, if re path then Replacement n else path))"

subsection \<open>Construction\<close>

fun precompileLoop :: "compiler \<Rightarrow> replacer list \<Rightarrow> error + replacer list" where
  "precompileLoop rc [] = Inr []"
| "precompileLoop rc (rep # reps) =
     (case rc (Regexp rep) of
        None \<Rightarrow> Inl (CompileError (Regexp rep))
      | Some compiled \<Rightarrow>
          (case precompileLoop rc reps of
             Inl e \<Rightarrow> Inl e
           | Inr reps' \<Rightarrow> Inr (rep\<lparr>regexpCompiled := Some compiled\<rparr> # reps')))"

definition precompileRegexps :: "compiler \<Rightarrow> requestNormalizer \<Rightarrow> error + requestNormalizer" where
  "precompileRegexps rc rn =
     (case precompileLoop rc (replaceRules rn) of
        Inl e \<Rightarrow> Inl e
      | Inr rules \<Rightarrow> Inr (rn\<lparr>replaceRules := rules\<rparr>))"

definition NewFromConfig :: "compiler \<Rightarrow> requestNormalizerConfig \<Rightarrow> error + requestNormalizer" where
  "NewFromConfig rc config =
     precompileRegexps rc
       \<lparr>getParamWithEventIdentifier = GetParamWithEventIdentifier config,
        replaceRules = ReplaceRules config,
        sanitizeHashes = SanitizeHashes config,
        sanitizeNumbers = SanitizeNumbers config,
        sanitizeUids = SanitizeUids config,
        sanitizeIps = SanitizeIps config,
        sanitizeImages = SanitizeImages config,
        sanitizeFonts = SanitizeFonts config\<rparr>"

subsection \<open>normalizePath\<close>

text \<open>The first loop.  The loop variable is a copy of the rule, so what \<open>process\<close> does to
  the rule is lost with the copy.\<close>

fun processRules :: "compiler \<Rightarrow> replacer list \<Rightarrow> string \<Rightarrow> error + string" where
  "processRules rc [] rawPath = Inr rawPath"
| "processRules rc (rule # rules) rawPath =
     (case process rc rule rawPath of
        Inl e \<Rightarrow> Inl e
      | Inr (rule', rawPath') \<Rightarrow> processRules rc rules rawPath')"

text \<open>The body of the second loop: what \<^verbatim>\<open>pathItems[i]\<close> holds after the iteration
  at index \<open>i\<close>.\<close>

definition sanitizeItem :: "requestNormalizer \<Rightarrow> nat \<Rightarrow> nat \<Rightarrow> string \<Rightarrow> string" where
  "sanitizeItem rn itemsCount i item =
     (if item = [] then item
      else if sanitizeHashes rn \<and> (IsMD5 item \<or> IsSHA1 item \<or> IsSHA256 item) then hashPlaceholder
      else if sanitizeNumbers rn \<and> (IsNumeric item \<or> IsHexadecimal item) then numberPlaceholder
      else if sanitizeUids rn \<and> (IsUUID item \<or> IsUUIDv4 item) then uuidPlaceholder
      else if sanitizeIps rn \<and> IsIP item then ipPlaceholder
      else if i + 1 = itemsCount then
        (if sanitizeImages rn \<and> imageExtensionRegex item then imagePlaceholder
         else if sanitizeFonts rn \<and> fontExtensionRegex item then fontPlaceholder
         else item)
      else item)"

fun sanitizeItems :: "requestNormalizer \<Rightarrow> nat \<Rightarrow> nat \<Rightarrow> string list \<Rightarrow> string list" where
  "sanitizeItems rn itemsCount i [] = []"
| "sanitizeItems rn itemsCount i (item # items) =
     sanitizeItem rn itemsCount i item # sanitizeItems rn itemsCount (Suc i) items"

definition normalizePath :: "compiler \<Rightarrow> requestNormalizer \<Rightarrow> string \<Rightarrow> error + string" where
  "normalizePath rc rn rawPath =
     (if rawPath = [] then Inr ''/''
      else
        (case processRules rc (replaceRules rn) rawPath of
           Inl e \<Rightarrow> Inl e
         | Inr rawPath' \<Rightarrow>
             let pathItems = strings_Split (path_Clean rawPath') (CHR ''/'');
                 itemsCount = length pathItems
             in Inr (strings_Join (sanitizeItems rn itemsCount 0 pathItems) pathItemsSeparator)))"

subsection \<open>The event key\<close>

definition getNormalizedEventKey ::
    "compiler \<Rightarrow> requestNormalizer \<Rightarrow> 'a HttpRequest_scheme \<Rightarrow> error + string" where
  "getNormalizedEventKey rc rn event =
     (case normalizePath rc rn (Path (URL event)) of
        Inl e \<Rightarrow> Inl e
      | Inr normalized \<Rightarrow>
          let eventIdentifiers = [Method event] @ [normalized] in
          Inr (strings_Join
                 (if getParamWithEventIdentifier rn \<noteq> [] then
                    (case url_Query (URL event) (getParamWithEventIdentifier rn) of
                       Some operationNames \<Rightarrow> eventIdentifiers @ operationNames
                     | None \<Rightarrow> eventIdentifiers)
                  else eventIdentifiers)
                 eventKeyFieldSeparator))"

subsection \<open>The stage\<close>

text \<open>
  \<^verbatim>\<open>Run\<close> starts one goroutine that receives from the input channel until it is closed,
  and sends to the output channel.  The input channel is modelled by the finite sequence
  of events sent on it before it is closed, the output channel by the sequence of
  operations the goroutine performs on it.  The deferred \<^verbatim>\<open>close\<close> runs when the
  goroutine's function returns and also when it panics.  An event is a pointer in Go and
  the key is written through it; here the event sent on is the event with its key
  written.  The observer and the log lines act on neither channel and are left out.
\<close>

datatype 'e chanOp = Send 'e | Close

fun Run_loop ::
    "compiler \<Rightarrow> requestNormalizer \<Rightarrow> 'a HttpRequest_scheme list \<Rightarrow>
     'a HttpRequest_scheme chanOp list \<Rightarrow> 'a HttpRequest_scheme chanOp list \<times> error option" where
  "Run_loop rc rn [] out = (out @ [Close], None)"
| "Run_loop rc rn (newEvent # events) out =
     (if EventKey newEvent \<noteq> [] then Run_loop rc rn events (out @ [Send newEvent])
      else
        (case getNormalizedEventKey rc rn newEvent of
           Inl e \<Rightarrow> (out @ [Close], Some e)
         | Inr key \<Rightarrow> Run_loop rc rn events (out @ [Send (newEvent\<lparr>EventKey := key\<rparr>)])))"

definition Run ::
    "compiler \<Rightarrow> requestNormalizer \<Rightarrow> 'a HttpRequest_scheme list \<Rightarrow>
     'a HttpRequest_scheme chanOp list \<times> error option" where
  "Run rc rn inputEvents = Run_loop rc rn inputEvents []"

subsection \<open>Expressions without operators\<close>

text \<open>
  The theorems below hold for every compiler \<open>rc\<close>.  Where a concrete one is needed,
  \<open>literalCompile\<close> stands for \<^verbatim>\<open>regexp.Compile\<close> on two kinds of expression: one made of
  letters, digits, \<^verbatim>\<open>/\<close>, \<^verbatim>\<open>_\<close> and \<^verbatim>\<open>-\<close> only, which has no operator and matches the
  strings that contain it; and the expression \<^verbatim>\<open>(\<close>, which \<^verbatim>\<open>regexp.Compile\<close> rejects
  for its missing closing parenthesis.  On every other expression \<open>literalCompile\<close> is
  not a model of \<^verbatim>\<open>regexp.Compile\<close> and is not used.
\<close>

definition isLiteralChar :: "char \<Rightarrow> bool" where
  "isLiteralChar c =
     (c \<in> set ''abcdefghijklmnopqrstuvwxyzABCDEFGHIJKLMNOPQRSTUVWXYZ0123456789/_-'')"

definition literalCompile :: compiler where
  "literalCompile expr =
     (if list_all isLiteralChar expr then Some (\<lambda>s. strings_Contains s expr) else None)"

section \<open>The specification's wording\<close>

text \<open>The definitions of this section restate the specification, for comparison with
  the code above.\<close>

subsection \<open>Rewrite rules (4.1)\<close>

text \<open>A rule whose expression is compiled matches a path when the compiled expression
  does.  Applying a rule gives the replacement when the rule matches and the path
  itself otherwise; the rules are applied in order, each to the result of the one
  before.\<close>

definition ruleMatches :: "replacer \<Rightarrow> string \<Rightarrow> bool" where
  "ruleMatches rule path = (case regexpCompiled rule of None \<Rightarrow> False | Some re \<Rightarrow> re path)"

definition applyRule :: "replacer \<Rightarrow> string \<Rightarrow> string" where
  "applyRule rule path = (if ruleMatches rule path then Replacement rule else path)"

definition applyRules :: "replacer list \<Rightarrow> string \<Rightarrow> string" where
  "applyRules rules rawPath = foldl (\<lambda>path rule. applyRule rule path) rawPath rules"

subsection \<open>Segments (4.2, steps 3 to 5)\<close>

text \<open>The heuristics in their priority order: whether the heuristic is to be tried at
  this position, its test, and its placeholder.\<close>

definition heuristics ::
    "requestNormalizer \<Rightarrow> nat \<Rightarrow> nat \<Rightarrow> (bool \<times> (string \<Rightarrow> bool) \<times> string) list" where
  "heuristics rn n i =
     [(sanitizeHashes rn, \<lambda>seg. IsMD5 seg \<or> IsSHA1 seg \<or> IsSHA256 seg, '':hash''),
      (sanitizeNumbers rn, \<lambda>seg. IsNumeric seg \<or> IsHexadecimal seg, ''0''),
      (sanitizeUids rn, \<lambda>seg. IsUUID seg \<or> IsUUIDv4 seg, '':uuid''),
      (sanitizeIps rn, IsIP, '':ip''),
      (i + 1 = n \<and> sanitizeImages rn, imageExtensionRegex, '':image''),
      (i + 1 = n \<and> sanitizeFonts rn, fontExtensionRegex, '':font'')]"

fun firstMatch :: "(bool \<times> (string \<Rightarrow> bool) \<times> string) list \<Rightarrow> string \<Rightarrow> string option" where
  "firstMatch [] seg = None"
| "firstMatch ((enabled, test, placeholder) # hs) seg =
     (if enabled \<and> test seg then Some placeholder else firstMatch hs seg)"

definition classify :: "requestNormalizer \<Rightarrow> nat \<Rightarrow> nat \<Rightarrow> string \<Rightarrow> string" where
  "classify rn n i seg =
     (if seg = [] then seg
      else (case firstMatch (heuristics rn n i) seg of None \<Rightarrow> seg | Some placeholder \<Rightarrow> placeholder))"

text \<open>Every segment is classified at its index \<open>i\<close> among the \<open>n\<close> segments of the
  path.\<close>

definition classifySegments :: "requestNormalizer \<Rightarrow> string list \<Rightarrow> string list" where
  "classifySegments rn segs =
     map (\<lambda>i. classify rn (length segs) i (segs ! i)) [0..<length segs]"

text \<open>Cleaning, splitting, classifying and joining again: what is done to the path
  that the rewrite rules leave.\<close>

definition sanitizeSegments :: "requestNormalizer \<Rightarrow> string \<Rightarrow> string" where
  "sanitizeSegments rn path =
     strings_Join
       (sanitizeItems rn (length (strings_Split (path_Clean path) (CHR ''/''))) 0
          (strings_Split (path_Clean path) (CHR ''/'')))
       ''/''"

text \<open>A segment has an extension when it ends with a dot and the extension, letters
  compared without regard to case.\<close>

definition toLowerASCII :: "char \<Rightarrow> char" where
  "toLowerASCII c =
     (case map_of (zip ''ABCDEFGHIJKLMNOPQRSTUVWXYZ'' ''abcdefghijklmnopqrstuvwxyz'') c of
        None \<Rightarrow> c
      | Some l \<Rightarrow> l)"

definition hasExtension :: "string \<Rightarrow> string \<Rightarrow> bool" where
  "hasExtension seg ext =
     (length ext < length seg \<and>
      map toLowerASCII (drop (length seg - Suc (length ext)) seg) = CHR ''.'' # ext)"

definition imageExtensions :: "string list" where
  "imageExtensions = [''png'', ''jpg'', ''jpeg'', ''svg'', ''tif'', ''tiff'', ''gif'', ''ico'']"

definition fontExtensions :: "string list" where
  "fontExtensions = [''ttf'', ''woff'']"

subsection \<open>The key (4.3) and the stage (4.4)\<close>

text \<open>The pairs of a query string that decode, in the order of the query string, and the
  values among them that are bound to a name.\<close>

fun decodedPairs :: "string list \<Rightarrow> (string \<times> string) list" where
  "decodedPairs [] = []"
| "decodedPairs (pair # rest) =
     (if pair = [] then decodedPairs rest
      else
        (case (url_QueryUnescape (takeWhile (\<lambda>c. c \<noteq> CHR ''='') pair),
               url_QueryUnescape (drop 1 (dropWhile (\<lambda>c. c \<noteq> CHR ''='') pair))) of
           (Some key, Some v) \<Rightarrow> (key, v) # decodedPairs rest
         | _ \<Rightarrow> decodedPairs rest))"

definition valuesBoundTo :: "string \<Rightarrow> url_URL \<Rightarrow> string list" where
  "valuesBoundTo name u =
     map snd (filter (\<lambda>kv. fst kv = name) (decodedPairs (splitPairs (RawQuery u))))"

text \<open>The event the stage forwards for an event it receives.\<close>

definition forwarded ::
    "compiler \<Rightarrow> requestNormalizer \<Rightarrow> 'a HttpRequest_scheme \<Rightarrow> 'a HttpRequest_scheme" where
  "forwarded rc rn event =
     (if EventKey event \<noteq> [] then event
      else (case getNormalizedEventKey rc rn event of
              Inl e \<Rightarrow> event
            | Inr key \<Rightarrow> event\<lparr>EventKey := key\<rparr>))"

subsection \<open>Example configurations\<close>

definition legacyRule :: replacer where
  "legacyRule = \<lparr>regexpCompiled = None, Regexp = ''/v2/orders/123'', Replacement = ''/legacy''\<rparr>"

definition exampleConfig :: requestNormalizerConfig where
  "exampleConfig =
     \<lparr>GetParamWithEventIdentifier = ''op'', ReplaceRules = [legacyRule],
      SanitizeHashes = True, SanitizeNumbers = True, SanitizeUids = True,
      SanitizeIps = True, SanitizeImages = True, SanitizeFonts = True\<rparr>"

definition legacyMatcher :: regexp where
  "legacyMatcher s = strings_Contains s ''/v2/orders/123''"

definition compiledLegacyRule :: replacer where
  "compiledLegacyRule =
     \<lparr>regexpCompiled = Some legacyMatcher, Regexp = ''/v2/orders/123'', Replacement = ''/legacy''\<rparr>"

definition exampleNormalizer :: requestNormalizer where
  "exampleNormalizer =
     \<lparr>getParamWithEventIdentifier = ''op'', replaceRules = [compiledLegacyRule],
      sanitizeHashes = True, sanitizeNumbers = True, sanitizeUids = True,
      sanitizeIps = True, sanitizeImages = True, sanitizeFonts = True\<rparr>"

definition brokenConfig :: requestNormalizerConfig where
  "brokenConfig =
     exampleConfig\<lparr>ReplaceRules :=
       [legacyRule, \<lparr>regexpCompiled = None, Regexp = ''('', Replacement = ''/never''\<rparr>]\<rparr>"

definition exampleEvent :: HttpRequest where
  "exampleEvent =
     \<lparr>Method = ''GET'', URL = \<lparr>Path = ''/users/42'', RawQuery = ''op=list&op=summary''\<rparr>,
      EventKey = []\<rparr>"

definition presetEvent :: HttpRequest where
  "presetEvent =
     \<lparr>Method = ''GET'', URL = \<lparr>Path = ''/users/42'', RawQuery = ''op=list''\<rparr>,
      EventKey = ''preset''\<rparr>"

definition usersRule :: replacer where
  "usersRule = \<lparr>regexpCompiled = None, Regexp = ''/users/0'', Replacement = ''/x''\<rparr>"

definition usersMatcher :: regexp where
  "usersMatcher s = strings_Contains s ''/users/0''"

definition compiledUsersRule :: replacer where
  "compiledUsersRule =
     \<lparr>regexpCompiled = Some usersMatcher, Regexp = ''/users/0'', Replacement = ''/x''\<rparr>"

definition usersConfig :: requestNormalizerConfig where
  "usersConfig = exampleConfig\<lparr>ReplaceRules := [usersRule]\<rparr>"

definition usersNormalizer :: requestNormalizer where
  "usersNormalizer = exampleNormalizer\<lparr>replaceRules := [compiledUsersRule]\<rparr>"

subsection \<open>Cleaned paths\<close>

text \<open>
  An element proper of a path is not empty, is neither \<^verbatim>\<open>.\<close> nor \<^verbatim>\<open>..\<close> and holds no
  slash.  The items that splitting a cleaned path gives are of one of four kinds: the two
  empty items of the root; the one item \<^verbatim>\<open>.\<close>; an empty item and then elements proper,
  for a rooted path; or some \<^verbatim>\<open>..\<close> and then elements proper, for a relative one.
\<close>

definition realElem :: "string \<Rightarrow> bool" where
  "realElem e = (e \<noteq> [] \<and> e \<noteq> ''.'' \<and> e \<noteq> ''..'' \<and> CHR ''/'' \<notin> set e)"

definition cleanItems :: "string list \<Rightarrow> bool" where
  "cleanItems items =
     (items = [[], []] \<or> items = [''.''] \<or>
      (case items of
         [] \<Rightarrow> False
       | first # rest \<Rightarrow>
           if first = [] then rest \<noteq> [] \<and> list_all realElem rest
           else list_all realElem (dropWhile (\<lambda>e. e = ''..'') items)))"

text \<open>The characters an IP address is written with.\<close>

definition addressChar :: "char \<Rightarrow> bool" where
  "addressChar c = (isHexDigit c \<or> c = CHR ''.'' \<or> c = CHR '':'')"

section \<open>Construction and the rewrite rules\<close>

lemma precompileLoop_ok:
  "\<forall>r\<in>set reps. rc (Regexp r) \<noteq> None \<Longrightarrow>
   precompileLoop rc reps = Inr (map (\<lambda>r. r\<lparr>regexpCompiled := rc (Regexp r)\<rparr>) reps)"
  by (induction reps) auto

lemma precompileLoop_fails:
  "\<exists>r\<in>set reps. rc (Regexp r) = None \<Longrightarrow>
   \<exists>r\<in>set reps. rc (Regexp r) = None \<and> precompileLoop rc reps = Inl (CompileError (Regexp r))"
proof (induction reps)
  case Nil
  then show ?case by simp
next
  case (Cons rep reps)
  show ?case
  proof (cases "rc (Regexp rep)")
    case None
    then show ?thesis by simp
  next
    case (Some compiled)
    with Cons.prems have "\<exists>r\<in>set reps. rc (Regexp r) = None" by auto
    from Cons.IH [OF this] Some show ?thesis by auto
  qed
qed

lemma precompileLoop_Inr:
  assumes "precompileLoop rc reps = Inr reps'"
  shows "(\<forall>r\<in>set reps. rc (Regexp r) \<noteq> None) \<and>
         reps' = map (\<lambda>r. r\<lparr>regexpCompiled := rc (Regexp r)\<rparr>) reps"
proof (cases "\<forall>r\<in>set reps. rc (Regexp r) \<noteq> None")
  case True
  with assms precompileLoop_ok [OF True] show ?thesis by simp
next
  case False
  then have "\<exists>r\<in>set reps. rc (Regexp r) = None" by simp
  from precompileLoop_fails [OF this] assms show ?thesis by auto
qed

lemma NewFromConfig_rules:
  assumes "NewFromConfig rc config = Inr rn"
  shows "\<forall>r\<in>set (replaceRules rn). regexpCompiled r \<noteq> None"
proof -
  from assms obtain rules where
    loop: "precompileLoop rc (ReplaceRules config) = Inr rules" and rn: "replaceRules rn = rules"
    by (auto simp: NewFromConfig_def precompileRegexps_def split: sum.splits)
  from precompileLoop_Inr [OF loop] rn show ?thesis by auto
qed

lemma process_compiled:
  "regexpCompiled r \<noteq> None \<Longrightarrow> process rc r path = Inr (r, applyRule r path)"
  by (auto simp: process_def applyRule_def ruleMatches_def)

lemma processRules_compiled:
  "\<forall>r\<in>set rules. regexpCompiled r \<noteq> None \<Longrightarrow>
   processRules rc rules path = Inr (applyRules rules path)"
  by (induction rules arbitrary: path) (simp_all add: applyRules_def process_compiled)

lemma normalizePath_compiled:
  assumes "\<forall>r\<in>set (replaceRules rn). regexpCompiled r \<noteq> None" and "rawPath \<noteq> []"
  shows "normalizePath rc rn rawPath =
         Inr (sanitizeSegments rn (applyRules (replaceRules rn) rawPath))"
  using assms
  by (simp add: normalizePath_def processRules_compiled sanitizeSegments_def
      pathItemsSeparator_def Let_def)

lemma literalCompile_legacy: "literalCompile ''/v2/orders/123'' = Some legacyMatcher"
  by (simp add: literalCompile_def isLiteralChar_def legacyMatcher_def [abs_def])

lemma example_constructed: "NewFromConfig literalCompile exampleConfig = Inr exampleNormalizer"
  by (simp add: NewFromConfig_def precompileRegexps_def exampleConfig_def exampleNormalizer_def
      legacyRule_def compiledLegacyRule_def literalCompile_legacy)

text \<open>
  C8.  A configuration with a rewrite rule whose expression does not compile is refused:
  the constructor returns the error that names such an expression, and no normalizer.
  A configuration whose expressions all compile gives a normalizer, which holds the
  configuration's settings and each rule with its compiled expression.
\<close>

theorem NewFromConfig_fails_or_builds:
  "((\<exists>r\<in>set (ReplaceRules config). rc (Regexp r) = None) \<longrightarrow>
      (\<exists>r\<in>set (ReplaceRules config). rc (Regexp r) = None \<and>
         NewFromConfig rc config = Inl (CompileError (Regexp r)))) \<and>
   ((\<forall>r\<in>set (ReplaceRules config). rc (Regexp r) \<noteq> None) \<longrightarrow>
      NewFromConfig rc config =
        Inr \<lparr>getParamWithEventIdentifier = GetParamWithEventIdentifier config,
             replaceRules = map (\<lambda>r. r\<lparr>regexpCompiled := rc (Regexp r)\<rparr>) (ReplaceRules config),
             sanitizeHashes = SanitizeHashes config,
             sanitizeNumbers = SanitizeNumbers config,
             sanitizeUids = SanitizeUids config,
             sanitizeIps = SanitizeIps config,
             sanitizeImages = SanitizeImages config,
             sanitizeFonts = SanitizeFonts config\<rparr>)"
proof (intro conjI impI)
  assume "\<exists>r\<in>set (ReplaceRules config). rc (Regexp r) = None"
  from precompileLoop_fails [OF this]
  show "\<exists>r\<in>set (ReplaceRules config). rc (Regexp r) = None \<and>
          NewFromConfig rc config = Inl (CompileError (Regexp r))"
    by (auto simp: NewFromConfig_def precompileRegexps_def)
next
  assume "\<forall>r\<in>set (ReplaceRules config). rc (Regexp r) \<noteq> None"
  from precompileLoop_ok [OF this]
  show "NewFromConfig rc config =
        Inr \<lparr>getParamWithEventIdentifier = GetParamWithEventIdentifier config,
             replaceRules = map (\<lambda>r. r\<lparr>regexpCompiled := rc (Regexp r)\<rparr>) (ReplaceRules config),
             sanitizeHashes = SanitizeHashes config,
             sanitizeNumbers = SanitizeNumbers config,
             sanitizeUids = SanitizeUids config,
             sanitizeIps = SanitizeIps config,
             sanitizeImages = SanitizeImages config,
             sanitizeFonts = SanitizeFonts config\<rparr>"
    by (simp add: NewFromConfig_def precompileRegexps_def)
qed

theorem NewFromConfig_fails_or_builds_witness:
  "NewFromConfig literalCompile brokenConfig = Inl (CompileError ''('') \<and>
   (\<exists>rn. NewFromConfig literalCompile exampleConfig = Inr rn)"
proof -
  have broken: "\<exists>r\<in>set (ReplaceRules brokenConfig). literalCompile (Regexp r) = None"
    by (simp add: brokenConfig_def exampleConfig_def legacyRule_def literalCompile_def
        isLiteralChar_def)
  have fine: "\<forall>r\<in>set (ReplaceRules exampleConfig). literalCompile (Regexp r) \<noteq> None"
    by (simp add: exampleConfig_def legacyRule_def literalCompile_def isLiteralChar_def)
  from NewFromConfig_fails_or_builds [of brokenConfig literalCompile] broken
  have "\<exists>r\<in>set (ReplaceRules brokenConfig). literalCompile (Regexp r) = None \<and>
          NewFromConfig literalCompile brokenConfig = Inl (CompileError (Regexp r))"
    by blast
  then have "NewFromConfig literalCompile brokenConfig = Inl (CompileError ''('')"
    by (auto simp: brokenConfig_def exampleConfig_def legacyRule_def literalCompile_def
        isLiteralChar_def)
  moreover from NewFromConfig_fails_or_builds [of exampleConfig literalCompile] fine
  have "\<exists>rn. NewFromConfig literalCompile exampleConfig = Inr rn"
    by blast
  ultimately show ?thesis by simp
qed

lemma normalizePath_total:
  assumes "\<forall>r\<in>set (replaceRules rn). regexpCompiled r \<noteq> None"
  shows "normalizePath rc rn rawPath =
         Inr (if rawPath = [] then ''/'' else sanitizeSegments rn (applyRules (replaceRules rn) rawPath))"
  using normalizePath_compiled [OF assms] by (simp add: normalizePath_def)

text \<open>
  C10.  In a normalizer that the constructor returned every rule holds its compiled
  expression.  Hence \<open>process\<close> on such a rule returns the rule as it was and a path,
  whatever the compiler is that it could call: it never compiles, so it neither changes
  the rule nor panics; and \<open>normalizePath\<close> returns a path for every input.
\<close>

theorem constructed_rules_never_compile_lazily:
  assumes "NewFromConfig rc config = Inr rn"
  shows "(\<forall>r\<in>set (replaceRules rn).
            regexpCompiled r \<noteq> None \<and>
            (\<forall>rc' path. process rc' r path = Inr (r, applyRule r path))) \<and>
         (\<forall>rc' rawPath. \<exists>path. normalizePath rc' rn rawPath = Inr path)"
proof -
  have compiled: "\<forall>r\<in>set (replaceRules rn). regexpCompiled r \<noteq> None"
    using assms by (rule NewFromConfig_rules)
  then show ?thesis
    by (auto simp: process_compiled normalizePath_total)
qed

theorem constructed_rules_never_compile_lazily_witness:
  "NewFromConfig literalCompile exampleConfig = Inr exampleNormalizer \<and>
   replaceRules exampleNormalizer = [compiledLegacyRule] \<and>
   regexpCompiled compiledLegacyRule \<noteq> None \<and>
   process (\<lambda>expr. None) compiledLegacyRule ''/v2/orders/123'' =
     Inr (compiledLegacyRule, ''/legacy'') \<and>
   (\<exists>path. normalizePath (\<lambda>expr. None) exampleNormalizer ''/v2/orders/123'' = Inr path)"
proof -
  note c = constructed_rules_never_compile_lazily [OF example_constructed]
  have rules: "replaceRules exampleNormalizer = [compiledLegacyRule]"
    by (simp add: exampleNormalizer_def)
  then have r: "compiledLegacyRule \<in> set (replaceRules exampleNormalizer)"
    by simp
  from c r have "regexpCompiled compiledLegacyRule \<noteq> None"
    by blast
  moreover from c r
  have "process (\<lambda>expr. None) compiledLegacyRule ''/v2/orders/123'' =
     Inr (compiledLegacyRule, applyRule compiledLegacyRule ''/v2/orders/123'')"
    by blast
  moreover have "applyRule compiledLegacyRule ''/v2/orders/123'' = ''/legacy''"
    by (simp add: compiledLegacyRule_def applyRule_def ruleMatches_def legacyMatcher_def)
  moreover have "\<exists>path. normalizePath (\<lambda>expr. None) exampleNormalizer ''/v2/orders/123'' = Inr path"
    using c by blast
  ultimately show ?thesis using example_constructed rules by simp
qed

text \<open>
  C3.  On a rule with a compiled expression \<open>process\<close> returns the rule's replacement,
  as it stands, when the expression matches the path, and the path otherwise.  A
  normalizer from the constructor applies its rules to a non-empty path in the order of
  the list, each to the result of the one before, and only the result of the last is
  cleaned, split and classified.
\<close>

theorem rules_rewrite_whole_path_in_order:
  "(regexpCompiled rule = Some re \<longrightarrow>
      process rc rule path = Inr (rule, if re path then Replacement rule else path)) \<and>
   (NewFromConfig rc config = Inr rn \<and> rawPath \<noteq> [] \<longrightarrow>
      normalizePath rc rn rawPath =
        Inr (sanitizeSegments rn
               (foldl (\<lambda>p r. if ruleMatches r p then Replacement r else p) rawPath (replaceRules rn))))"
proof (intro conjI impI)
  assume "regexpCompiled rule = Some re"
  then show "process rc rule path = Inr (rule, if re path then Replacement rule else path)"
    by (simp add: process_def)
next
  assume a: "NewFromConfig rc config = Inr rn \<and> rawPath \<noteq> []"
  then have "\<forall>r\<in>set (replaceRules rn). regexpCompiled r \<noteq> None"
    using NewFromConfig_rules [of rc config rn] by blast
  from normalizePath_compiled [OF this] a
  show "normalizePath rc rn rawPath =
        Inr (sanitizeSegments rn
               (foldl (\<lambda>p r. if ruleMatches r p then Replacement r else p) rawPath (replaceRules rn)))"
    by (simp add: applyRules_def applyRule_def)
qed

theorem rules_rewrite_whole_path_in_order_witness:
  "process literalCompile compiledLegacyRule ''/v2/orders/123'' =
     Inr (compiledLegacyRule, ''/legacy'') \<and>
   process literalCompile compiledLegacyRule ''/v2/orders/124'' =
     Inr (compiledLegacyRule, ''/v2/orders/124'') \<and>
   normalizePath literalCompile exampleNormalizer ''/v2/orders/123'' = Inr ''/legacy'' \<and>
   normalizePath literalCompile exampleNormalizer ''/v2/orders/124'' = Inr ''/v2/orders/0''"
proof -
  have re: "regexpCompiled compiledLegacyRule = Some legacyMatcher"
    by (simp add: compiledLegacyRule_def)
  have rules: "replaceRules exampleNormalizer = [compiledLegacyRule]"
    by (simp add: exampleNormalizer_def)
  have repl: "Replacement compiledLegacyRule = ''/legacy''"
    by (simp add: compiledLegacyRule_def)
  have m1: "legacyMatcher ''/v2/orders/123''" and m2: "\<not> legacyMatcher ''/v2/orders/124''"
    by (simp_all add: legacyMatcher_def)
  note t = rules_rewrite_whole_path_in_order
    [where rule = compiledLegacyRule and re = legacyMatcher and rc = literalCompile
       and config = exampleConfig and rn = exampleNormalizer]
  have p1: "process literalCompile compiledLegacyRule ''/v2/orders/123'' =
              Inr (compiledLegacyRule, ''/legacy'')"
    using t [where path = "''/v2/orders/123''", THEN conjunct1, THEN mp, OF re]
    by (simp only: m1 repl if_True)
  have p2: "process literalCompile compiledLegacyRule ''/v2/orders/124'' =
              Inr (compiledLegacyRule, ''/v2/orders/124'')"
    using t [where path = "''/v2/orders/124''", THEN conjunct1, THEN mp, OF re]
    by (simp only: m2 if_False)
  have f1: "foldl (\<lambda>p r. if ruleMatches r p then Replacement r else p) ''/v2/orders/123''
              (replaceRules exampleNormalizer) = ''/legacy''"
    by (simp add: rules ruleMatches_def re m1 repl)
  have f2: "foldl (\<lambda>p r. if ruleMatches r p then Replacement r else p) ''/v2/orders/124''
              (replaceRules exampleNormalizer) = ''/v2/orders/124''"
    by (simp add: rules ruleMatches_def re m2)
  have s1: "sanitizeSegments exampleNormalizer ''/legacy'' = ''/legacy''"
    by code_simp
  have s2: "sanitizeSegments exampleNormalizer ''/v2/orders/124'' = ''/v2/orders/0''"
    by code_simp
  have n1: "normalizePath literalCompile exampleNormalizer ''/v2/orders/123'' = Inr ''/legacy''"
    using t [where rawPath = "''/v2/orders/123''", THEN conjunct2, THEN mp]
      example_constructed
    by (simp only: f1 s1) simp
  have n2: "normalizePath literalCompile exampleNormalizer ''/v2/orders/124'' = Inr ''/v2/orders/0''"
    using t [where rawPath = "''/v2/orders/124''", THEN conjunct2, THEN mp]
      example_constructed
    by (simp only: f2 s2) simp
  from p1 p2 n1 n2 show ?thesis by simp
qed

section \<open>The event key\<close>

lemma parseQuery_lookup:
  "parseQuery m pairs name =
     (if filter (\<lambda>kv. fst kv = name) (decodedPairs pairs) = [] then m name
      else Some ((case m name of None \<Rightarrow> [] | Some vs \<Rightarrow> vs) @
                 map snd (filter (\<lambda>kv. fst kv = name) (decodedPairs pairs))))"
proof (induction pairs arbitrary: m)
  case Nil
  then show ?case by simp
next
  case (Cons pair rest)
  show ?case
    by (cases "url_QueryUnescape (takeWhile (\<lambda>c. c \<noteq> CHR ''='') pair)";
        cases "url_QueryUnescape (drop 1 (dropWhile (\<lambda>c. c \<noteq> CHR ''='') pair))")
       (auto simp: Cons.IH split: option.splits)
qed

lemma url_Query_lookup:
  "url_Query u name =
     (if valuesBoundTo name u = [] then None else Some (valuesBoundTo name u))"
  by (simp add: url_Query_def valuesBoundTo_def parseQuery_lookup)

text \<open>
  C6.  The key is the method, the sanitized path and, when a query parameter is
  configured, the values bound to it in the query, all joined by a colon.  The values
  come in the order of the query string, each as often as it occurs there; a parameter
  that is absent adds nothing.  A normalizer from the constructor always returns the key.
\<close>

theorem event_key_is_method_path_and_values:
  "getNormalizedEventKey rc rn event =
     (case normalizePath rc rn (Path (URL event)) of
        Inl e \<Rightarrow> Inl e
      | Inr sanitized \<Rightarrow>
          Inr (strings_Join
                 ([Method event, sanitized] @
                  (if getParamWithEventIdentifier rn = [] then []
                   else valuesBoundTo (getParamWithEventIdentifier rn) (URL event)))
                 '':'')) \<and>
   (NewFromConfig rc config = Inr rn \<longrightarrow> (\<exists>key. getNormalizedEventKey rc rn event = Inr key))"
proof (intro conjI impI)
  show "getNormalizedEventKey rc rn event =
     (case normalizePath rc rn (Path (URL event)) of
        Inl e \<Rightarrow> Inl e
      | Inr sanitized \<Rightarrow>
          Inr (strings_Join
                 ([Method event, sanitized] @
                  (if getParamWithEventIdentifier rn = [] then []
                   else valuesBoundTo (getParamWithEventIdentifier rn) (URL event)))
                 '':''))"
    by (simp add: getNormalizedEventKey_def url_Query_lookup eventKeyFieldSeparator_def Let_def
        split: sum.splits)
next
  assume "NewFromConfig rc config = Inr rn"
  then have "\<forall>r\<in>set (replaceRules rn). regexpCompiled r \<noteq> None"
    by (rule NewFromConfig_rules)
  then show "\<exists>key. getNormalizedEventKey rc rn event = Inr key"
    by (simp add: getNormalizedEventKey_def normalizePath_total Let_def)
qed

theorem event_key_is_method_path_and_values_witness:
  "getNormalizedEventKey literalCompile exampleNormalizer exampleEvent =
     Inr ''GET:/users/0:list:summary''"
proof -
  have n: "normalizePath literalCompile exampleNormalizer (Path (URL exampleEvent)) =
             Inr ''/users/0''"
    by code_simp
  have v: "valuesBoundTo ''op'' (URL exampleEvent) = [''list'', ''summary'']"
    by code_simp
  have p: "getParamWithEventIdentifier exampleNormalizer = ''op''"
    by (simp add: exampleNormalizer_def)
  have m: "Method exampleEvent = ''GET''"
    by (simp add: exampleEvent_def)
  from event_key_is_method_path_and_values
         [where rc = literalCompile and rn = exampleNormalizer and event = exampleEvent,
          THEN conjunct1]
  show ?thesis
    by (simp add: n p v m)
qed

section \<open>Segments\<close>

lemma IsMD5_nonempty: "IsMD5 item \<Longrightarrow> item \<noteq> []"
  by (auto simp: IsMD5_def IsHash_def)

lemma priority_chain:
  "(if e then x
    else if a1 then p1 else if a2 then p2 else if a3 then p3 else if a4 then p4
    else if l then (if a5 then p5 else if a6 then p6 else x) else x) =
   (if e then x
    else (case (if a1 then Some p1 else if a2 then Some p2 else if a3 then Some p3
                else if a4 then Some p4 else if l \<and> a5 then Some p5
                else if l \<and> a6 then Some p6 else None) of
            None \<Rightarrow> x | Some p \<Rightarrow> p))"
  by simp

lemma sanitizeItem_classify: "sanitizeItem rn n i item = classify rn n i item"
  unfolding sanitizeItem_def classify_def heuristics_def firstMatch.simps
    hashPlaceholder_def numberPlaceholder_def uuidPlaceholder_def ipPlaceholder_def
    imagePlaceholder_def fontPlaceholder_def conj_assoc
  by (rule priority_chain)

lemma sanitizeItem_md5:
  "sanitizeHashes rn \<Longrightarrow> IsMD5 item \<Longrightarrow> sanitizeItem rn n i item = '':hash''"
  using IsMD5_nonempty [of item] by (simp add: sanitizeItem_def hashPlaceholder_def)

section \<open>The stage\<close>

lemma getNormalizedEventKey_total:
  assumes "\<forall>r\<in>set (replaceRules rn). regexpCompiled r \<noteq> None"
  shows "\<exists>key. getNormalizedEventKey rc rn event = Inr key"
  using assms by (simp add: getNormalizedEventKey_def normalizePath_total Let_def)

lemma Run_loop_forwarded:
  assumes "\<forall>r\<in>set (replaceRules rn). regexpCompiled r \<noteq> None"
  shows "Run_loop rc rn events out =
         (out @ map (\<lambda>ev. Send (forwarded rc rn ev)) events @ [Close], None)"
proof (induction events arbitrary: out)
  case Nil
  then show ?case by simp
next
  case (Cons ev events)
  from getNormalizedEventKey_total [OF assms, of rc ev]
  obtain key where "getNormalizedEventKey rc rn ev = Inr key" by blast
  then show ?case by (simp add: Cons.IH forwarded_def)
qed

lemma forwarded_same_event: "\<exists>key. forwarded rc rn ev = ev\<lparr>EventKey := key\<rparr>"
proof (cases "EventKey ev \<noteq> []")
  case True
  then have "forwarded rc rn ev = ev\<lparr>EventKey := EventKey ev\<rparr>"
    by (simp add: forwarded_def)
  then show ?thesis by blast
next
  case False
  show ?thesis
  proof (cases "getNormalizedEventKey rc rn ev")
    case (Inl e)
    with False have "forwarded rc rn ev = ev\<lparr>EventKey := EventKey ev\<rparr>"
      by (simp add: forwarded_def)
    then show ?thesis by blast
  next
    case (Inr key)
    with False have "forwarded rc rn ev = ev\<lparr>EventKey := key\<rparr>"
      by (simp add: forwarded_def)
    then show ?thesis by blast
  qed
qed

text \<open>
  C7.  An event that arrives with a key is sent on as it is, whatever the normalizer and
  whatever the event's path; the loop goes on with the next event.  In the run of a
  normalizer from the constructor, the operation on the output channel at the position
  of such an event sends that very event.
\<close>

theorem keyed_event_is_forwarded_unchanged:
  "(EventKey event \<noteq> [] \<longrightarrow>
      Run_loop rc rn (event # events) out = Run_loop rc rn events (out @ [Send event])) \<and>
   (NewFromConfig rc config = Inr rn \<and> i < length inputEvents \<and>
    EventKey (inputEvents ! i) \<noteq> [] \<longrightarrow>
      fst (Run rc rn inputEvents) ! i = Send (inputEvents ! i))"
proof (intro conjI impI)
  assume "EventKey event \<noteq> []"
  then show "Run_loop rc rn (event # events) out = Run_loop rc rn events (out @ [Send event])"
    by simp
next
  assume a: "NewFromConfig rc config = Inr rn \<and> i < length inputEvents \<and>
    EventKey (inputEvents ! i) \<noteq> []"
  then have "\<forall>r\<in>set (replaceRules rn). regexpCompiled r \<noteq> None"
    using NewFromConfig_rules [of rc config rn] by blast
  from Run_loop_forwarded [OF this, of rc inputEvents "[]"] a
  show "fst (Run rc rn inputEvents) ! i = Send (inputEvents ! i)"
    by (simp add: Run_def nth_append forwarded_def)
qed

theorem keyed_event_is_forwarded_unchanged_witness:
  "EventKey presetEvent = ''preset'' \<and>
   Run literalCompile \<lparr>getParamWithEventIdentifier = ''op'',
        replaceRules = [\<lparr>regexpCompiled = None, Regexp = ''('', Replacement = []\<rparr>],
        sanitizeHashes = True, sanitizeNumbers = True, sanitizeUids = True,
        sanitizeIps = True, sanitizeImages = True, sanitizeFonts = True\<rparr> [presetEvent] =
     ([Send presetEvent, Close], None) \<and>
   fst (Run literalCompile exampleNormalizer [exampleEvent, presetEvent]) ! 1 = Send presetEvent"
proof -
  have k: "EventKey presetEvent \<noteq> []" "EventKey presetEvent = ''preset''"
    by (simp_all add: presetEvent_def)
  note t = keyed_event_is_forwarded_unchanged
  have "Run_loop literalCompile \<lparr>getParamWithEventIdentifier = ''op'',
        replaceRules = [\<lparr>regexpCompiled = None, Regexp = ''('', Replacement = []\<rparr>],
        sanitizeHashes = True, sanitizeNumbers = True, sanitizeUids = True,
        sanitizeIps = True, sanitizeImages = True, sanitizeFonts = True\<rparr> (presetEvent # []) [] =
     ([Send presetEvent, Close], None)"
    using t [where event = presetEvent and events = "[]" and out = "[]", THEN conjunct1] k
    by simp
  moreover
  have "fst (Run literalCompile exampleNormalizer [exampleEvent, presetEvent]) ! 1 = Send presetEvent"
    using t [where rc = literalCompile and config = exampleConfig and rn = exampleNormalizer
               and i = 1 and inputEvents = "[exampleEvent, presetEvent]", THEN conjunct2]
      example_constructed k
    by simp
  ultimately show ?thesis using k by (simp add: Run_def)
qed

text \<open>
  C9.  The run of a normalizer from the constructor on a finite sequence of events does
  not panic.  It sends one event for each event received, in the order received, the
  same event up to its key, and then closes the output channel: the close is the last
  operation and the only one that is not a send.
\<close>

theorem Run_sends_each_event_in_order_then_closes:
  assumes "NewFromConfig rc config = Inr rn"
  shows "\<exists>sent. Run rc rn inputEvents = (map Send sent @ [Close], None) \<and>
           length sent = length inputEvents \<and>
           (\<forall>i<length inputEvents.
              sent ! i = forwarded rc rn (inputEvents ! i) \<and>
              (\<exists>key. sent ! i = (inputEvents ! i)\<lparr>EventKey := key\<rparr>))"
proof -
  have compiled: "\<forall>r\<in>set (replaceRules rn). regexpCompiled r \<noteq> None"
    using assms by (rule NewFromConfig_rules)
  let ?sent = "map (forwarded rc rn) inputEvents"
  have "Run rc rn inputEvents = (map Send ?sent @ [Close], None)"
    using Run_loop_forwarded [OF compiled, of rc inputEvents "[]"]
    by (simp add: Run_def comp_def)
  moreover have "length ?sent = length inputEvents"
    by simp
  moreover have "\<forall>i<length inputEvents.
      ?sent ! i = forwarded rc rn (inputEvents ! i) \<and>
      (\<exists>key. ?sent ! i = (inputEvents ! i)\<lparr>EventKey := key\<rparr>)"
    by (simp add: forwarded_same_event)
  ultimately show ?thesis by blast
qed

theorem Run_sends_each_event_in_order_then_closes_witness:
  "Run literalCompile exampleNormalizer [exampleEvent, presetEvent, exampleEvent] =
     ([Send (exampleEvent\<lparr>EventKey := ''GET:/users/0:list:summary''\<rparr>), Send presetEvent,
       Send (exampleEvent\<lparr>EventKey := ''GET:/users/0:list:summary''\<rparr>), Close], None)"
proof -
  have key: "getNormalizedEventKey literalCompile exampleNormalizer exampleEvent =
               Inr ''GET:/users/0:list:summary''"
    by code_simp
  have f1: "forwarded literalCompile exampleNormalizer exampleEvent =
              exampleEvent\<lparr>EventKey := ''GET:/users/0:list:summary''\<rparr>"
    by (simp add: forwarded_def key) (simp add: exampleEvent_def)
  have f2: "forwarded literalCompile exampleNormalizer presetEvent = presetEvent"
    by (simp add: forwarded_def presetEvent_def)
  from Run_sends_each_event_in_order_then_closes
         [OF example_constructed, of "[exampleEvent, presetEvent, exampleEvent]"]
  obtain sent where
    run: "Run literalCompile exampleNormalizer [exampleEvent, presetEvent, exampleEvent] =
            (map Send sent @ [Close], None)" and
    len: "length sent = length [exampleEvent, presetEvent, exampleEvent]" and
    each: "\<forall>i<length [exampleEvent, presetEvent, exampleEvent]. sent ! i =
             forwarded literalCompile exampleNormalizer ([exampleEvent, presetEvent, exampleEvent] ! i)"
    by blast
  from len obtain a b c where sent: "sent = [a, b, c]"
    by (auto simp: length_Suc_conv)
  from each [rule_format, of 0] sent f1 have a: "a = exampleEvent\<lparr>EventKey := ''GET:/users/0:list:summary''\<rparr>"
    by simp
  from each [rule_format, of 1] sent f2 have b: "b = presetEvent"
    by simp
  from each [rule_format, of 2] sent f1 have c: "c = exampleEvent\<lparr>EventKey := ''GET:/users/0:list:summary''\<rparr>"
    by simp
  from run sent a b c show ?thesis by simp
qed

section \<open>Every segment of the path\<close>

lemma sanitizeItems_map:
  "sanitizeItems rn n i items =
   map (\<lambda>k. sanitizeItem rn n (i + k) (items ! k)) [0..<length items]"
proof (induction items arbitrary: i)
  case Nil
  then show ?case by simp
next
  case (Cons item items)
  have "map (\<lambda>k. sanitizeItem rn n (i + k) ((item # items) ! k)) [0..<length (item # items)] =
        sanitizeItem rn n i item #
        map (\<lambda>k. sanitizeItem rn n (Suc i + k) (items ! k)) [0..<length items]"
    by (simp add: upt_conv_Cons map_Suc_upt [symmetric] del: upt_Suc)
  then show ?case by (simp add: Cons.IH)
qed

lemma sanitizeItems_classifySegments:
  "sanitizeItems rn (length segs) 0 segs = classifySegments rn segs"
  by (simp add: sanitizeItems_map classifySegments_def sanitizeItem_classify)

lemma classify_empty: "classify rn n i [] = []"
  by (simp add: classify_def)

lemma classify_lower_hex_32:
  assumes "sanitizeHashes rn" and "length seg = 32" and "list_all isLowerHex seg"
  shows "classify rn n i seg = '':hash''"
proof -
  from assms have "IsMD5 seg"
    by (simp add: IsMD5_def IsHash_def)
  with assms(1) show ?thesis
    using sanitizeItem_md5 [of rn seg n i] by (simp add: sanitizeItem_classify)
qed

text \<open>
  C4, amended.  A normalizer from the constructor rewrites a non-empty path by its rules,
  cleans and splits it, and gives every segment the classification of the specification
  at the segment's index among all segments: an empty segment stays; otherwise the
  heuristics are tried in the order hashes, numbers, UUIDs, IP addresses and, at the
  last index only, images and fonts, each only if its toggle is on, and the first that
  matches gives its placeholder; when none matches the segment stays.  A segment of 32
  lower-case hexadecimal digits becomes \<open>:hash\<close> whenever hashes are sanitized, whether
  or not numbers are.
\<close>

theorem path_segments_get_first_matching_placeholder:
  "(NewFromConfig rc config = Inr rn \<and> rawPath \<noteq> [] \<longrightarrow>
      normalizePath rc rn rawPath =
        Inr (strings_Join
               (classifySegments rn
                  (strings_Split (path_Clean (applyRules (replaceRules rn) rawPath)) (CHR ''/'')))
               ''/'')) \<and>
   (\<forall>i<length segs. segs ! i = [] \<longrightarrow> classifySegments rn segs ! i = []) \<and>
   (\<forall>i<length segs.
      sanitizeHashes rn \<and> length (segs ! i) = 32 \<and> list_all isLowerHex (segs ! i) \<longrightarrow>
      classifySegments rn segs ! i = '':hash'')"
proof (intro conjI impI allI)
  assume a: "NewFromConfig rc config = Inr rn \<and> rawPath \<noteq> []"
  then have "\<forall>r\<in>set (replaceRules rn). regexpCompiled r \<noteq> None"
    using NewFromConfig_rules [of rc config rn] by blast
  from normalizePath_compiled [OF this] a
  show "normalizePath rc rn rawPath =
        Inr (strings_Join
               (classifySegments rn
                  (strings_Split (path_Clean (applyRules (replaceRules rn) rawPath)) (CHR ''/'')))
               ''/'')"
    by (simp add: sanitizeSegments_def sanitizeItems_classifySegments)
next
  fix i
  assume "i < length segs" and "segs ! i = []"
  then show "classifySegments rn segs ! i = []"
    by (simp add: classifySegments_def classify_empty)
next
  fix i
  assume "i < length segs" and
    "sanitizeHashes rn \<and> length (segs ! i) = 32 \<and> list_all isLowerHex (segs ! i)"
  then show "classifySegments rn segs ! i = '':hash''"
    by (simp add: classifySegments_def classify_lower_hex_32)
qed

theorem path_segments_get_first_matching_placeholder_witness:
  "normalizePath literalCompile exampleNormalizer
     ''/files//d41d8cd98f00b204e9800998ecf8427e/logo.png/1.2.3.4/logo.png'' =
     Inr ''/files/:hash/logo.png/:ip/:image'' \<and>
   classifySegments exampleNormalizer ['''', ''d41d8cd98f00b204e9800998ecf8427e''] =
     ['''', '':hash'']"
proof -
  let ?p = "''/files//d41d8cd98f00b204e9800998ecf8427e/logo.png/1.2.3.4/logo.png''"
  let ?segs = "['''', ''d41d8cd98f00b204e9800998ecf8427e'']"
  note t = path_segments_get_first_matching_placeholder
    [where rc = literalCompile and config = exampleConfig and rn = exampleNormalizer
       and rawPath = ?p and segs = ?segs]
  have rules: "applyRules (replaceRules exampleNormalizer) ?p = ?p"
    by code_simp
  have segs: "strings_Join
      (classifySegments exampleNormalizer (strings_Split (path_Clean ?p) (CHR ''/''))) ''/'' =
      ''/files/:hash/logo.png/:ip/:image''"
    by code_simp
  have n: "normalizePath literalCompile exampleNormalizer ?p =
             Inr ''/files/:hash/logo.png/:ip/:image''"
    using t [THEN conjunct1, THEN mp] example_constructed
    by (simp only: rules segs) simp
  have len: "length ?segs = 2" by simp
  have on: "sanitizeHashes exampleNormalizer" by (simp add: exampleNormalizer_def)
  have hex: "length (?segs ! 1) = 32 \<and> list_all isLowerHex (?segs ! 1)"
    by code_simp
  have e0: "classifySegments exampleNormalizer ?segs ! 0 = []"
    using t [THEN conjunct2, THEN conjunct1, rule_format, of 0] by simp
  have e1: "classifySegments exampleNormalizer ?segs ! 1 = '':hash''"
    using t [THEN conjunct2, THEN conjunct2, rule_format, of 1] on hex by simp
  have "length (classifySegments exampleNormalizer ?segs) = 2"
    by (simp add: classifySegments_def)
  then obtain a b where ab: "classifySegments exampleNormalizer ?segs = [a, b]"
    by (auto simp: length_Suc_conv numeral_2_eq_2)
  with e0 e1 have "classifySegments exampleNormalizer ?segs = ['''', '':hash'']"
    by simp
  with n show ?thesis by simp
qed

theorem upper_case_digest_becomes_number:
  "sanitizeHashes exampleNormalizer \<and> sanitizeNumbers exampleNormalizer \<and>
   length ''D41D8CD98F00B204E9800998ECF8427E'' = 32 \<and>
   list_all isHexDigit ''D41D8CD98F00B204E9800998ECF8427E'' \<and>
   normalizePath literalCompile exampleNormalizer ''/files/D41D8CD98F00B204E9800998ECF8427E'' =
     Inr ''/files/0''"
  by code_simp

section \<open>Splitting and joining\<close>

lemma strings_Split_nonempty: "strings_Split s sep \<noteq> []"
  by (induction s) (auto split: list.splits)

lemma strings_Split_no_sep: "x \<in> set (strings_Split s sep) \<Longrightarrow> sep \<notin> set x"
  by (induction s arbitrary: x) (auto split: list.splits if_splits)

lemma strings_Split_Cons_other:
  "c \<noteq> sep \<Longrightarrow>
   strings_Split (c # cs) sep = (c # hd (strings_Split cs sep)) # tl (strings_Split cs sep)"
  using strings_Split_nonempty [of cs sep] by (auto split: list.splits)

lemma strings_Split_item_sep:
  "sep \<notin> set x \<Longrightarrow> strings_Split (x @ sep # rest) sep = x # strings_Split rest sep"
  by (induction x) (auto simp: strings_Split_Cons_other)

lemma strings_Split_item: "sep \<notin> set x \<Longrightarrow> strings_Split x sep = [x]"
  by (induction x) (auto simp: strings_Split_Cons_other)

lemma strings_Split_Join:
  "items \<noteq> [] \<Longrightarrow> \<forall>x\<in>set items. sep \<notin> set x \<Longrightarrow>
   strings_Split (strings_Join items [sep]) sep = items"
proof (induction items "[sep]" rule: strings_Join.induct)
  case 1
  then show ?case by simp
next
  case (2 x)
  then show ?case by (simp add: strings_Split_item)
next
  case (3 x y ys)
  then show ?case by (simp add: strings_Split_item_sep)
qed

lemma strings_Join_nonempty:
  "items \<noteq> [] \<Longrightarrow> items \<noteq> [[]] \<Longrightarrow> sep \<noteq> [] \<Longrightarrow> strings_Join items sep \<noteq> []"
  by (induction items sep rule: strings_Join.induct) auto

lemma hd_strings_Join:
  "x \<noteq> [] \<Longrightarrow> hd (strings_Join (x # xs) sep) = hd x"
  by (cases xs) auto

section \<open>The loop over the items\<close>

lemma length_sanitizeItems: "length (sanitizeItems rn n i items) = length items"
  by (induction items arbitrary: i) auto

lemma sanitizeItems_idem:
  assumes "\<And>i item. sanitizeItem rn n i (sanitizeItem rn n i item) = sanitizeItem rn n i item"
  shows "sanitizeItems rn n i (sanitizeItems rn n i items) = sanitizeItems rn n i items"
  by (induction items arbitrary: i) (auto simp: assms)

lemma sanitizeItem_unmatched:
  "\<not> IsMD5 x \<Longrightarrow> \<not> IsSHA1 x \<Longrightarrow> \<not> IsSHA256 x \<Longrightarrow> \<not> IsNumeric x \<Longrightarrow>
   \<not> IsHexadecimal x \<Longrightarrow> \<not> IsUUID x \<Longrightarrow> \<not> IsUUIDv4 x \<Longrightarrow> \<not> IsIP x \<Longrightarrow>
   \<not> imageExtensionRegex x \<Longrightarrow> \<not> fontExtensionRegex x \<Longrightarrow> sanitizeItem rn n i x = x"
  by (simp add: sanitizeItem_def)

lemma sanitizeItem_hashPlaceholder: "sanitizeItem rn n i '':hash'' = '':hash''"
  by (rule sanitizeItem_unmatched; code_simp)

lemma sanitizeItem_uuidPlaceholder: "sanitizeItem rn n i '':uuid'' = '':uuid''"
  by (rule sanitizeItem_unmatched; code_simp)

lemma sanitizeItem_ipPlaceholder: "sanitizeItem rn n i '':ip'' = '':ip''"
  by (rule sanitizeItem_unmatched; code_simp)

lemma sanitizeItem_imagePlaceholder: "sanitizeItem rn n i '':image'' = '':image''"
  by (rule sanitizeItem_unmatched; code_simp)

lemma sanitizeItem_fontPlaceholder: "sanitizeItem rn n i '':font'' = '':font''"
  by (rule sanitizeItem_unmatched; code_simp)

lemma sanitizeItem_dot: "sanitizeItem rn n i ''.'' = ''.''"
  by (rule sanitizeItem_unmatched; code_simp)

lemma sanitizeItem_dotdot: "sanitizeItem rn n i ''..'' = ''..''"
  by (rule sanitizeItem_unmatched; code_simp)

lemma sanitizeItem_numberPlaceholder:
  assumes "sanitizeNumbers rn"
  shows "sanitizeItem rn n i ''0'' = ''0''"
proof -
  have "\<not> IsMD5 ''0''" "\<not> IsSHA1 ''0''" "\<not> IsSHA256 ''0''" "IsNumeric ''0''"
    by code_simp+
  with assms show ?thesis
    by (simp add: sanitizeItem_def numberPlaceholder_def)
qed

lemma chain_result:
  "r = (if e then x
        else if a1 then p1 else if a2 then p2 else if a3 then p3 else if a4 then p4
        else if l then (if a5 then p5 else if a6 then p6 else x) else x) \<Longrightarrow>
   r = x \<or> r = p1 \<or> a2 \<and> r = p2 \<or> r = p3 \<or> r = p4 \<or> r = p5 \<or> r = p6"
  by (cases e; cases a1; cases a2; cases a3; cases a4; cases l; cases a5; cases a6) simp_all

lemma sanitizeItem_cases:
  "sanitizeItem rn n i x = x \<or> sanitizeItem rn n i x = '':hash'' \<or>
   sanitizeNumbers rn \<and> sanitizeItem rn n i x = ''0'' \<or>
   sanitizeItem rn n i x = '':uuid'' \<or> sanitizeItem rn n i x = '':ip'' \<or>
   sanitizeItem rn n i x = '':image'' \<or> sanitizeItem rn n i x = '':font''"
proof -
  have "sanitizeItem rn n i x = x \<or> sanitizeItem rn n i x = '':hash'' \<or>
    (sanitizeNumbers rn \<and> (IsNumeric x \<or> IsHexadecimal x)) \<and> sanitizeItem rn n i x = ''0'' \<or>
    sanitizeItem rn n i x = '':uuid'' \<or> sanitizeItem rn n i x = '':ip'' \<or>
    sanitizeItem rn n i x = '':image'' \<or> sanitizeItem rn n i x = '':font''"
    by (rule chain_result)
      (simp only: sanitizeItem_def hashPlaceholder_def numberPlaceholder_def uuidPlaceholder_def
        ipPlaceholder_def imagePlaceholder_def fontPlaceholder_def)
  then show ?thesis by blast
qed

lemma sanitizeItem_idem:
  "sanitizeItem rn n i (sanitizeItem rn n i x) = sanitizeItem rn n i x"
  using sanitizeItem_cases [of rn n i x]
  by (auto simp: sanitizeItem_hashPlaceholder sanitizeItem_uuidPlaceholder
      sanitizeItem_ipPlaceholder sanitizeItem_imagePlaceholder sanitizeItem_fontPlaceholder
      sanitizeItem_numberPlaceholder)

lemma sanitizeItem_realElem: "realElem x \<Longrightarrow> realElem (sanitizeItem rn n i x)"
  using sanitizeItem_cases [of rn n i x] by (auto simp: realElem_def)

lemma sanitizeItem_empty: "sanitizeItem rn n i [] = []"
  by (simp add: sanitizeItem_def)

lemma sanitizeItems_realElems:
  "list_all realElem items \<Longrightarrow> list_all realElem (sanitizeItems rn n i items)"
  by (induction items arbitrary: i) (auto simp: sanitizeItem_realElem)

section \<open>Cleaned paths stay clean\<close>

lemma realElem_not_dotdot: "realElem e \<Longrightarrow> e \<noteq> ''..''"
  by (simp add: realElem_def)

lemma dropWhile_dotdot_realElems:
  "list_all realElem es \<Longrightarrow> dropWhile (\<lambda>e. e = ''..'') es = es"
  by (cases es) (auto simp: realElem_def)

lemma cleanItems_relative:
  "list_all realElem es \<Longrightarrow> replicate k ''..'' @ es \<noteq> [] \<Longrightarrow>
   cleanItems (replicate k ''..'' @ es)"
proof -
  assume es: "list_all realElem es" and ne: "replicate k ''..'' @ es \<noteq> []"
  have d: "dropWhile (\<lambda>e. e = ''..'') (replicate k ''..'' @ es) = es"
    using es by (induction k) (auto simp: dropWhile_dotdot_realElems)
  obtain first rest where fr: "replicate k ''..'' @ es = first # rest"
    using ne by (cases "replicate k ''..'' @ es") auto
  have "first \<noteq> []"
  proof (cases k)
    case 0
    with fr es show ?thesis by (auto simp: realElem_def)
  next
    case (Suc j)
    with fr show ?thesis by auto
  qed
  with fr d es show ?thesis
    by (simp add: cleanItems_def)
qed

lemma cleanItems_rooted:
  "list_all realElem es \<Longrightarrow> es \<noteq> [] \<Longrightarrow> cleanItems ([] # es)"
  by (simp add: cleanItems_def)

lemma takeWhile_eq_replicate: "takeWhile (\<lambda>e. e = a) xs = replicate (length (takeWhile (\<lambda>e. e = a) xs)) a"
  by (induction xs) auto

lemma cleanItems_cases:
  assumes "cleanItems items"
  obtains "items = [[], []]" | "items = [''.'']"
  | es where "items = [] # es" "es \<noteq> []" "list_all realElem es"
  | k es where "items = replicate k ''..'' @ es" "items \<noteq> []" "list_all realElem es"
proof (cases items)
  case Nil
  with assms show ?thesis by (simp add: cleanItems_def)
next
  case (Cons first rest)
  show ?thesis
  proof (cases "items = [[], []] \<or> items = [''.'']")
    case True
    with that show ?thesis by blast
  next
    case False
    show ?thesis
    proof (cases "first = []")
      case True
      with assms Cons False have "rest \<noteq> []" "list_all realElem rest"
        by (auto simp: cleanItems_def)
      with that(3) Cons True show ?thesis by simp
    next
      case nonempty: False
      with assms Cons False
      have "list_all realElem (dropWhile (\<lambda>e. e = ''..'') items)"
        by (auto simp: cleanItems_def)
      moreover have "items = replicate (length (takeWhile (\<lambda>e. e = ''..'') items)) ''..'' @
                        dropWhile (\<lambda>e. e = ''..'') items"
        using takeWhile_eq_replicate [of "''..''" items] takeWhile_dropWhile_id [of "\<lambda>e. e = ''..''" items]
        by simp
      ultimately show ?thesis using that(4) Cons by blast
    qed
  qed
qed

lemma cleanItems_sanitizeItems:
  assumes "cleanItems items"
  shows "cleanItems (sanitizeItems rn n i items)"
  using assms
proof (cases rule: cleanItems_cases)
  case 1
  then show ?thesis by (simp add: sanitizeItem_empty cleanItems_def)
next
  case 2
  then show ?thesis by (simp add: sanitizeItem_dot cleanItems_def)
next
  case (3 es)
  then have "sanitizeItems rn n i items = [] # sanitizeItems rn n (Suc i) es"
    by (simp add: sanitizeItem_empty)
  moreover have "sanitizeItems rn n (Suc i) es \<noteq> []"
    using 3 length_sanitizeItems [of rn n "Suc i" es] by auto
  ultimately show ?thesis
    using 3 by (simp add: cleanItems_rooted sanitizeItems_realElems)
next
  case (4 k es)
  have "sanitizeItems rn n j (replicate k ''..'' @ es) =
        replicate k ''..'' @ sanitizeItems rn n (j + k) es" for j
    by (induction k arbitrary: j) (auto simp: sanitizeItem_dotdot)
  moreover have "replicate k ''..'' @ sanitizeItems rn n (i + k) es \<noteq> []"
    using 4 length_sanitizeItems [of rn n "i + k" es] by auto
  ultimately show ?thesis
    using 4 by (simp add: cleanItems_relative sanitizeItems_realElems)
qed

lemma cleanItems_elems:
  assumes "cleanItems items" and "x \<in> set items"
  shows "x = [] \<or> x = ''.'' \<or> x = ''..'' \<or> realElem x"
  using assms(1)
proof (cases rule: cleanItems_cases)
  case 1
  with assms(2) show ?thesis by simp
next
  case 2
  with assms(2) show ?thesis by simp
next
  case (3 es)
  with assms(2) have "x = [] \<or> x \<in> set es" by simp
  with 3(3) show ?thesis by (auto simp: list_all_iff)
next
  case (4 k es)
  with assms(2) have "x = ''..'' \<or> x \<in> set es" by auto
  with 4(3) show ?thesis by (auto simp: list_all_iff)
qed

lemma cleanItems_nonempty: "cleanItems items \<Longrightarrow> items \<noteq> []"
  by (auto simp: cleanItems_def)

lemma cleanItems_no_slash:
  assumes "cleanItems items"
  shows "items \<noteq> [] \<and> (\<forall>x\<in>set items. CHR ''/'' \<notin> set x)"
proof -
  have "CHR ''/'' \<notin> set x" if "x \<in> set items" for x
    using cleanItems_elems [OF assms that] by (auto simp: realElem_def)
  with cleanItems_nonempty [OF assms] show ?thesis by blast
qed

lemma cleanItems_Join_nonempty:
  assumes "cleanItems items"
  shows "strings_Join items ''/'' \<noteq> []"
  using assms
proof (cases rule: cleanItems_cases)
  case 1
  then show ?thesis by simp
next
  case 2
  then show ?thesis by simp
next
  case (3 es)
  then obtain e es' where "es = e # es'" by (cases es) auto
  with 3 show ?thesis by simp
next
  case (4 k es)
  have "items \<noteq> [[]]"
  proof
    assume single: "items = [[]]"
    show False
    proof (cases k)
      case 0
      with 4 single show False by (auto simp: realElem_def)
    next
      case (Suc j)
      with 4 single show False by simp
    qed
  qed
  with 4(2) show ?thesis by (simp add: strings_Join_nonempty)
qed

section \<open>path.Clean\<close>

lemma cleanElems_realElems:
  "list_all realElem es \<Longrightarrow> cleanElems rooted out es = rev es @ out"
  by (induction es arbitrary: out) (auto simp: realElem_def)

lemma cleanElems_dotdots:
  "cleanElems False (replicate j ''..'') (replicate k ''..'' @ es) =
   cleanElems False (replicate (j + k) ''..'') es"
proof (induction k arbitrary: j)
  case 0
  then show ?case by simp
next
  case (Suc k)
  have "cleanElems False (replicate j ''..'') (''..'' # replicate k ''..'' @ es) =
        cleanElems False (replicate (Suc j) ''..'') (replicate k ''..'' @ es)"
    by (cases j) simp_all
  then show ?case using Suc.IH [of "Suc j"] by simp
qed

lemma cleanElems_form:
  assumes "\<forall>e\<in>set es. CHR ''/'' \<notin> set e" and "list_all realElem rs" and "rooted \<longrightarrow> k = 0"
  shows "\<exists>rs' k'. cleanElems rooted (rs @ replicate k ''..'') es = rs' @ replicate k' ''..'' \<and>
           list_all realElem rs' \<and> (rooted \<longrightarrow> k' = 0)"
  using assms
proof (induction es arbitrary: rs k)
  case Nil
  then show ?case by auto
next
  case (Cons e es)
  from Cons.prems have es: "\<forall>e\<in>set es. CHR ''/'' \<notin> set e" and e: "CHR ''/'' \<notin> set e"
    by auto
  consider "e = [] \<or> e = ''.''" | "e = ''..''" | "realElem e"
    using e by (auto simp: realElem_def)
  then show ?case
  proof cases
    case 1
    with Cons.IH [OF es Cons.prems(2) Cons.prems(3)] show ?thesis by auto
  next
    case 2
    show ?thesis
    proof (cases rs)
      case Nil
      show ?thesis
      proof (cases rooted)
        case True
        with Cons.prems Nil 2 Cons.IH [OF es, of "[]" 0] show ?thesis by auto
      next
        case False
        have "cleanElems rooted (rs @ replicate k ''..'') (e # es) =
              cleanElems rooted ([] @ replicate (Suc k) ''..'') es"
          using Nil 2 False by (cases k) simp_all
        with Cons.IH [OF es, of "[]" "Suc k"] False show ?thesis by auto
      qed
    next
      case (Cons r rs'')
      with Cons.prems(2) have r: "realElem r" and rest: "list_all realElem rs''"
        by simp_all
      from r have "r \<noteq> ''..''"
        by (simp add: realElem_def)
      then have "cleanElems rooted (rs @ replicate k ''..'') (e # es) =
                 cleanElems rooted (rs'' @ replicate k ''..'') es"
        using Cons 2 by simp
      with Cons.IH [OF es rest Cons.prems(3)] show ?thesis by auto
    qed
  next
    case 3
    then have "cleanElems rooted (rs @ replicate k ''..'') (e # es) =
               cleanElems rooted ((e # rs) @ replicate k ''..'') es"
      by (auto simp: realElem_def)
    moreover have "list_all realElem (e # rs)"
      using 3 Cons.prems(2) by simp
    ultimately show ?thesis
      using Cons.IH [OF es _ Cons.prems(3), of "e # rs"] by auto
  qed
qed

lemma path_Clean_cleanItems: "cleanItems (strings_Split (path_Clean p) (CHR ''/''))"
proof (cases "p = []")
  case True
  then show ?thesis by (simp add: path_Clean_def cleanItems_def)
next
  case False
  let ?rooted = "hd p = CHR ''/''"
  have "\<forall>e\<in>set (strings_Split p (CHR ''/'')). CHR ''/'' \<notin> set e"
    by (simp add: strings_Split_no_sep)
  from cleanElems_form [OF this, of "[]" ?rooted 0]
  obtain rs k where
    out: "cleanElems ?rooted [] (strings_Split p (CHR ''/'')) = rs @ replicate k ''..''" and
    rs: "list_all realElem rs" and k: "?rooted \<longrightarrow> k = 0"
    by auto
  have slash: "\<forall>x\<in>set (replicate k ''..'' @ rev rs). CHR ''/'' \<notin> set x"
    using rs by (auto simp: list_all_iff realElem_def)
  show ?thesis
  proof (cases ?rooted)
    case True
    with k out have clean: "path_Clean p = CHR ''/'' # strings_Join (rev rs) ''/''"
      using False by (simp add: path_Clean_def)
    show ?thesis
    proof (cases "rs = []")
      case True
      with clean show ?thesis by (simp add: cleanItems_def)
    next
      case nonempty: False
      with slash True k
      have "strings_Split (strings_Join (rev rs) ''/'') (CHR ''/'') = rev rs"
        by (simp add: strings_Split_Join)
      with clean have "strings_Split (path_Clean p) (CHR ''/'') = [] # rev rs"
        by simp
      with nonempty rs show ?thesis
        by (simp add: cleanItems_rooted)
    qed
  next
    case unrooted: False
    let ?out = "replicate k ''..'' @ rev rs"
    have rev_out: "rev (rs @ replicate k ''..'') = ?out"
      by simp
    show ?thesis
    proof (cases "?out = []")
      case True
      with out unrooted False have "path_Clean p = ''.''"
        by (simp add: path_Clean_def)
      then show ?thesis by (simp add: cleanItems_def)
    next
      case nonempty: False
      with out unrooted False rev_out have "path_Clean p = strings_Join ?out ''/''"
        by (simp add: path_Clean_def)
      with nonempty slash have "strings_Split (path_Clean p) (CHR ''/'') = ?out"
        using strings_Split_Join [of ?out "CHR ''/''"] by simp
      with nonempty rs show ?thesis
        using cleanItems_relative [of "rev rs" k] by simp
    qed
  qed
qed

lemma path_Clean_fixed:
  assumes "cleanItems items"
  shows "path_Clean (strings_Join items ''/'') = strings_Join items ''/''"
  using assms
proof (cases rule: cleanItems_cases)
  case 1
  then show ?thesis by (simp add: path_Clean_def)
next
  case 2
  then show ?thesis by (simp add: path_Clean_def)
next
  case (3 es)
  then obtain e es' where es: "es = e # es'" by (cases es) auto
  have join: "strings_Join items ''/'' = CHR ''/'' # strings_Join es ''/''"
    using 3 es by simp
  have "\<forall>x\<in>set es. CHR ''/'' \<notin> set x"
    using 3 by (auto simp: list_all_iff realElem_def)
  with 3 have "strings_Split (strings_Join es ''/'') (CHR ''/'') = es"
    by (simp add: strings_Split_Join)
  with join have "strings_Split (strings_Join items ''/'') (CHR ''/'') = [] # es"
    by simp
  with join 3 show ?thesis
    by (simp add: path_Clean_def cleanElems_realElems)
next
  case (4 k es)
  from assms have slash: "\<forall>x\<in>set items. CHR ''/'' \<notin> set x"
    using cleanItems_no_slash by blast
  from 4(2) obtain first rest where fr: "items = first # rest" by (cases items) auto
  have first: "first \<noteq> [] \<and> hd first \<noteq> CHR ''/''"
  proof (cases k)
    case 0
    with 4 fr show ?thesis by (cases first) (auto simp: realElem_def)
  next
    case (Suc j)
    with 4 fr show ?thesis by auto
  qed
  have nonempty: "strings_Join items ''/'' \<noteq> []"
    using assms by (rule cleanItems_Join_nonempty)
  have unrooted: "hd (strings_Join items ''/'') \<noteq> CHR ''/''"
    using first fr by (simp add: hd_strings_Join)
  have split: "strings_Split (strings_Join items ''/'') (CHR ''/'') = items"
    using 4 slash by (simp add: strings_Split_Join)
  have "cleanElems False [] items = rev es @ replicate k ''..''"
    using 4 cleanElems_dotdots [of 0 k es] by (simp add: cleanElems_realElems)
  then have "rev (cleanElems False [] items) = items"
    using 4 by simp
  with nonempty unrooted split 4 show ?thesis
    by (simp add: path_Clean_def)
qed

section \<open>Sanitizing twice\<close>

lemma sanitizeSegments_cleanItems:
  "\<exists>items. cleanItems items \<and> sanitizeSegments rn p = strings_Join items ''/'' \<and>
     sanitizeItems rn (length items) 0 items = items"
proof -
  let ?items = "strings_Split (path_Clean p) (CHR ''/'')"
  let ?items' = "sanitizeItems rn (length ?items) 0 ?items"
  have "cleanItems ?items'"
    by (simp add: cleanItems_sanitizeItems path_Clean_cleanItems)
  moreover have "sanitizeSegments rn p = strings_Join ?items' ''/''"
    by (simp add: sanitizeSegments_def)
  moreover have "sanitizeItems rn (length ?items') 0 ?items' = ?items'"
    by (simp add: length_sanitizeItems sanitizeItems_idem sanitizeItem_idem)
  ultimately show ?thesis by blast
qed

lemma sanitizeSegments_nonempty: "sanitizeSegments rn p \<noteq> []"
  using sanitizeSegments_cleanItems [of rn p] cleanItems_Join_nonempty by metis

lemma sanitizeSegments_idem:
  "sanitizeSegments rn (sanitizeSegments rn p) = sanitizeSegments rn p"
proof -
  from sanitizeSegments_cleanItems [of rn p] obtain items where
    clean: "cleanItems items" and q: "sanitizeSegments rn p = strings_Join items ''/''" and
    fixed: "sanitizeItems rn (length items) 0 items = items"
    by blast
  have "path_Clean (strings_Join items ''/'') = strings_Join items ''/''"
    using clean by (rule path_Clean_fixed)
  moreover have "strings_Split (strings_Join items ''/'') (CHR ''/'') = items"
    using cleanItems_no_slash [OF clean] by (simp add: strings_Split_Join)
  ultimately have "sanitizeSegments rn (strings_Join items ''/'') = strings_Join items ''/''"
    using fixed by (simp add: sanitizeSegments_def)
  with q show ?thesis by simp
qed

lemma applyRules_unmatched:
  "\<forall>r\<in>set rules. \<not> ruleMatches r path \<Longrightarrow> applyRules rules path = path"
  by (induction rules) (simp_all add: applyRules_def applyRule_def)



text \<open>
  C1, amended.  For a normalizer from the constructor and every path, whatever the six
  toggles: \<open>normalizePath\<close> returns a path, and when no rewrite rule matches that
  result, normalizing the result returns it again.
\<close>

theorem normalizePath_idempotent_unless_a_rule_matches_the_result:
  assumes "NewFromConfig rc config = Inr rn"
  shows "\<exists>path. normalizePath rc rn rawPath = Inr path \<and>
           ((\<forall>r\<in>set (replaceRules rn). \<not> ruleMatches r path) \<longrightarrow>
              normalizePath rc rn path = Inr path)"
proof -
  have compiled: "\<forall>r\<in>set (replaceRules rn). regexpCompiled r \<noteq> None"
    using assms by (rule NewFromConfig_rules)
  define path where
    "path = (if rawPath = [] then ''/''
             else sanitizeSegments rn (applyRules (replaceRules rn) rawPath))"
  have first: "normalizePath rc rn rawPath = Inr path"
    by (simp add: path_def normalizePath_total [OF compiled])
  have root: "sanitizeSegments rn ''/'' = ''/''"
    by (simp add: sanitizeSegments_def path_Clean_def sanitizeItem_empty)
  have again: "sanitizeSegments rn path = path"
    by (simp add: path_def root sanitizeSegments_idem)
  have nonempty: "path \<noteq> []"
    by (simp add: path_def sanitizeSegments_nonempty)
  have "normalizePath rc rn path = Inr path"
    if "\<forall>r\<in>set (replaceRules rn). \<not> ruleMatches r path"
    using that nonempty again
    by (simp add: normalizePath_total [OF compiled] applyRules_unmatched)
  with first show ?thesis by blast
qed

theorem normalizePath_idempotent_unless_a_rule_matches_the_result_witness:
  "normalizePath literalCompile exampleNormalizer ''/users/42/../43/avatar.PNG'' =
     Inr ''/users/0/:image'' \<and>
   normalizePath literalCompile exampleNormalizer ''/users/0/:image'' = Inr ''/users/0/:image''"
proof -
  from normalizePath_idempotent_unless_a_rule_matches_the_result
         [OF example_constructed, of "''/users/42/../43/avatar.PNG''"]
  obtain path where
    first: "normalizePath literalCompile exampleNormalizer ''/users/42/../43/avatar.PNG'' =
              Inr path" and
    again: "(\<forall>r\<in>set (replaceRules exampleNormalizer). \<not> ruleMatches r path) \<longrightarrow>
              normalizePath literalCompile exampleNormalizer path = Inr path"
    by blast
  have "normalizePath literalCompile exampleNormalizer ''/users/42/../43/avatar.PNG'' =
          Inr ''/users/0/:image''"
    by code_simp
  with first have path: "path = ''/users/0/:image''"
    by simp
  have "\<not> ruleMatches compiledLegacyRule ''/users/0/:image''"
    by (simp add: ruleMatches_def compiledLegacyRule_def legacyMatcher_def)
  then have "\<forall>r\<in>set (replaceRules exampleNormalizer). \<not> ruleMatches r path"
    by (simp add: exampleNormalizer_def path)
  with again first path show ?thesis by simp
qed

lemma users_constructed: "NewFromConfig literalCompile usersConfig = Inr usersNormalizer"
  by (simp add: NewFromConfig_def precompileRegexps_def usersConfig_def usersNormalizer_def
      exampleConfig_def exampleNormalizer_def usersRule_def compiledUsersRule_def
      literalCompile_def isLiteralChar_def usersMatcher_def [abs_def])

theorem rule_matching_the_sanitized_path_breaks_idempotence:
  "NewFromConfig literalCompile usersConfig = Inr usersNormalizer \<and>
   replaceRules usersNormalizer = [compiledUsersRule] \<and>
   \<not> ruleMatches compiledUsersRule (Replacement compiledUsersRule) \<and>
   normalizePath literalCompile usersNormalizer ''/users/42'' = Inr ''/users/0'' \<and>
   normalizePath literalCompile usersNormalizer ''/users/0'' = Inr ''/x''"
proof -
  have "replaceRules usersNormalizer = [compiledUsersRule]"
    by (simp add: usersNormalizer_def)
  moreover have "\<not> ruleMatches compiledUsersRule (Replacement compiledUsersRule)"
    by (simp add: ruleMatches_def compiledUsersRule_def usersMatcher_def)
  moreover have "normalizePath literalCompile usersNormalizer ''/users/42'' = Inr ''/users/0''"
    by code_simp
  moreover have "normalizePath literalCompile usersNormalizer ''/users/0'' = Inr ''/x''"
    by code_simp
  ultimately show ?thesis using users_constructed by simp
qed

section \<open>Extensions\<close>

lemma upper_lower_roundtrip:
  "list_all (\<lambda>c. toUpperASCII (toLowerASCII c) = c) ''ABCDEFGHIJKLMNOPQRSTUVWXYZ''"
  by code_simp

lemma toLowerASCII_other: "c \<notin> set ''ABCDEFGHIJKLMNOPQRSTUVWXYZ'' \<Longrightarrow> toLowerASCII c = c"
  by (simp add: toLowerASCII_def)

lemma toLowerASCII_cases: "toLowerASCII c = p \<Longrightarrow> c = p \<or> c = toUpperASCII p"
proof (cases "c \<in> set ''ABCDEFGHIJKLMNOPQRSTUVWXYZ''")
  case True
  assume "toLowerASCII c = p"
  moreover have "toUpperASCII (toLowerASCII c) = c"
    using upper_lower_roundtrip [unfolded list_all_iff, THEN bspec, OF True] .
  ultimately show ?thesis by simp
next
  case False
  assume "toLowerASCII c = p"
  with toLowerASCII_other [OF False] show ?thesis by simp
qed

lemma matchFold_lowered: "map toLowerASCII s = pat \<Longrightarrow> matchFold pat s"
proof (induction pat arbitrary: s)
  case Nil
  then show ?case by simp
next
  case (Cons p ps)
  then obtain c cs where s: "s = c # cs" and c: "toLowerASCII c = p" and cs: "map toLowerASCII cs = ps"
    by (cases s) auto
  from toLowerASCII_cases [OF c] Cons.IH [OF cs] s show ?case by auto
qed

lemma endsWithFold_drop:
  "k \<le> length seg \<Longrightarrow> matchFold pat (drop k seg) \<Longrightarrow> endsWithFold seg pat"
proof (induction seg arbitrary: k)
  case Nil
  then show ?case by simp
next
  case (Cons c cs)
  then show ?case by (cases k) auto
qed

lemma endsWithFold_suffix:
  "endsWithFold seg pat \<Longrightarrow> \<exists>k\<le>length seg. matchFold pat (drop k seg)"
proof (induction seg)
  case Nil
  then show ?case by simp
next
  case (Cons c cs)
  show ?case
  proof (cases "matchFold pat (c # cs)")
    case True
    then have "matchFold pat (drop 0 (c # cs))" by simp
    then show ?thesis by blast
  next
    case False
    with Cons.prems have "endsWithFold cs pat" by simp
    from Cons.IH [OF this] obtain k where "k \<le> length cs" "matchFold pat (drop k cs)" by blast
    then have "Suc k \<le> length (c # cs)" "matchFold pat (drop (Suc k) (c # cs))" by simp_all
    then show ?thesis by blast
  qed
qed

lemma hasExtension_endsWithFold:
  assumes "hasExtension seg ext"
  shows "endsWithFold seg (CHR ''.'' # ext)"
proof -
  from assms have "matchFold (CHR ''.'' # ext) (drop (length seg - Suc (length ext)) seg)"
    by (simp add: hasExtension_def matchFold_lowered)
  then show ?thesis
    by (rule endsWithFold_drop [rotated]) simp
qed

lemma hasExtension_image:
  "ext \<in> set imageExtensions \<Longrightarrow> hasExtension seg ext \<Longrightarrow> imageExtensionRegex seg"
  unfolding imageExtensionRegex_def imageExtensions_def list_ex_iff
  using hasExtension_endsWithFold by blast

lemma hasExtension_font:
  "ext \<in> set fontExtensions \<Longrightarrow> hasExtension seg ext \<Longrightarrow> fontExtensionRegex seg"
  unfolding fontExtensionRegex_def fontExtensions_def list_ex_iff
  using hasExtension_endsWithFold by blast

section \<open>A segment with an extension is nothing else\<close>

lemma hasExtension_letters:
  assumes "hasExtension seg ext" and "l \<in> set (CHR ''.'' # ext)"
  shows "\<exists>c\<in>set seg. toLowerASCII c = l"
proof -
  from assms have "l \<in> set (map toLowerASCII (drop (length seg - Suc (length ext)) seg))"
    by (simp add: hasExtension_def)
  then obtain c where "c \<in> set (drop (length seg - Suc (length ext)) seg)" "toLowerASCII c = l"
    by auto
  then show ?thesis by (auto dest: in_set_dropD)
qed

lemma hasExtension_dot: "hasExtension seg ext \<Longrightarrow> CHR ''.'' \<in> set seg"
proof -
  assume "hasExtension seg ext"
  from hasExtension_letters [OF this, of "CHR ''.''"]
  obtain c where c: "c \<in> set seg" "toLowerASCII c = CHR ''.''" by auto
  from toLowerASCII_cases [OF c(2)] have "c = CHR ''.''"
    by (simp add: toUpperASCII_def)
  with c show ?thesis by simp
qed

lemma dotted_not_hash_or_number:
  assumes "CHR ''.'' \<in> set seg"
  shows "\<not> IsMD5 seg \<and> \<not> IsSHA1 seg \<and> \<not> IsSHA256 seg \<and> \<not> IsNumeric seg \<and> \<not> IsHexadecimal seg"
proof -
  have "\<not> isLowerHex (CHR ''.'')" "\<not> isDigit (CHR ''.'')" "\<not> isHexDigit (CHR ''.'')"
    by (simp_all add: isLowerHex_def isDigit_def isHexDigit_def)
  with assms show ?thesis
    by (auto simp: IsMD5_def IsSHA1_def IsSHA256_def IsHash_def IsNumeric_def IsHexadecimal_def
        list_all_iff)
qed

lemma strings_Split_covers:
  "c \<in> set s \<Longrightarrow> c \<noteq> sep \<Longrightarrow> \<exists>x\<in>set (strings_Split s sep). c \<in> set x"
proof (induction s)
  case Nil
  then show ?case by simp
next
  case (Cons d ds)
  obtain item items where split: "strings_Split ds sep = item # items"
    using strings_Split_nonempty [of ds sep] by (cases "strings_Split ds sep") auto
  show ?case
  proof (cases "c \<in> set ds")
    case True
    from Cons.IH [OF True Cons.prems(2)] split show ?thesis by auto
  next
    case False
    with Cons.prems have "c = d" by simp
    with Cons.prems(2) split show ?thesis by auto
  qed
qed

lemma dotted_not_uuid:
  assumes "CHR ''.'' \<in> set seg"
  shows "\<not> IsUUID seg \<and> \<not> IsUUIDv4 seg"
proof -
  from strings_Split_covers [OF assms, of "CHR ''-''"]
  obtain x where "x \<in> set (strings_Split seg (CHR ''-''))" "CHR ''.'' \<in> set x" by auto
  moreover have "\<not> isLowerHex (CHR ''.'')"
    by (simp add: isLowerHex_def)
  ultimately have "\<not> uuidGroups seg"
    by (auto simp: uuidGroups_def list_all_iff)
  then show ?thesis by (simp add: IsUUID_def IsUUIDv4_def)
qed

section \<open>What an IP address is written with\<close>

lemma isDigit_addressChar: "isDigit c \<Longrightarrow> addressChar c"
  by (auto simp: isDigit_def addressChar_def isHexDigit_def)

lemma dtoiLoop_digits:
  "dtoiLoop n i s = (m, c, True) \<Longrightarrow>
   i \<le> c \<and> c - i \<le> length s \<and> list_all addressChar (take (c - i) s)"
proof (induction s arbitrary: n i)
  case Nil
  then show ?case by (simp split: if_splits)
next
  case (Cons x xs)
  show ?case
  proof (cases "isDigit x")
    case True
    with Cons.prems have rec: "dtoiLoop (n * 10 + digitVal x) (Suc i) xs = (m, c, True)"
      by (simp split: if_splits)
    from Cons.IH [OF rec] have "Suc i \<le> c" "c - Suc i \<le> length xs"
      "list_all addressChar (take (c - Suc i) xs)"
      by simp_all
    moreover from \<open>Suc i \<le> c\<close> have "c - i = Suc (c - Suc i)" by simp
    ultimately show ?thesis using True by (simp add: isDigit_addressChar)
  next
    case False
    with Cons.prems show ?thesis by (simp split: if_splits)
  qed
qed

lemma xtoiLoop_digits:
  "xtoiLoop n i s = (m, c, True) \<Longrightarrow>
   i \<le> c \<and> c - i \<le> length s \<and> list_all addressChar (take (c - i) s)"
proof (induction s arbitrary: n i)
  case Nil
  then show ?case by (simp split: if_splits)
next
  case (Cons x xs)
  show ?case
  proof (cases "isHexDigit x")
    case True
    with Cons.prems have rec: "xtoiLoop (n * 16 + hexVal x) (Suc i) xs = (m, c, True)"
      by (simp split: if_splits)
    from Cons.IH [OF rec] have "Suc i \<le> c" "c - Suc i \<le> length xs"
      "list_all addressChar (take (c - Suc i) xs)"
      by simp_all
    moreover from \<open>Suc i \<le> c\<close> have "c - i = Suc (c - Suc i)" by simp
    moreover from True have "addressChar x" by (simp add: addressChar_def)
    ultimately show ?thesis by simp
  next
    case False
    with Cons.prems show ?thesis by (simp split: if_splits)
  qed
qed

lemma dtoi_digits:
  assumes "snd (snd (dtoi s))"
  shows "fst (snd (dtoi s)) \<le> length s \<and> list_all addressChar (take (fst (snd (dtoi s))) s)"
proof -
  obtain m c ok where d: "dtoiLoop 0 0 s = (m, c, ok)" by (cases "dtoiLoop 0 0 s") auto
  with assms have "ok" by (simp add: dtoi_def)
  with d dtoiLoop_digits [of 0 0 s m c] show ?thesis by (simp add: dtoi_def)
qed

lemma xtoi_digits:
  assumes "snd (snd (xtoi s))"
  shows "fst (snd (xtoi s)) \<le> length s \<and> list_all addressChar (take (fst (snd (xtoi s))) s)"
proof -
  obtain m c ok where d: "xtoiLoop 0 0 s = (m, c, ok)" by (cases "xtoiLoop 0 0 s") auto
  with assms have "ok" by (simp add: xtoi_def)
  with d xtoiLoop_digits [of 0 0 s m c] show ?thesis by (simp add: xtoi_def)
qed

lemma take_drop_chars:
  "list_all addressChar (take c s) \<Longrightarrow> list_all addressChar (drop c s) \<Longrightarrow> list_all addressChar s"
  using append_take_drop_id [of c s] list_all_append [of addressChar "take c s" "drop c s"]
  by simp

lemma parseIPv4Loop_chars: "parseIPv4Loop r s \<Longrightarrow> list_all addressChar s"
proof (induction r arbitrary: s)
  case 0
  then show ?case by simp
next
  case (Suc r)
  let ?s1 = "if Suc r < 4 then tl s else s"
  from Suc.prems have nonempty: "s \<noteq> []" and
    dot: "Suc r < 4 \<longrightarrow> hd s = CHR ''.''" and
    ok: "snd (snd (dtoi ?s1))" and
    rest: "parseIPv4Loop r (drop (fst (snd (dtoi ?s1))) ?s1)"
    by (auto simp: Let_def split: if_splits)
  from dtoi_digits [OF ok] Suc.IH [OF rest] have s1: "list_all addressChar ?s1"
    using take_drop_chars by blast
  show ?case
  proof (cases "Suc r < 4")
    case True
    with dot nonempty obtain t where "s = CHR ''.'' # t" by (cases s) auto
    moreover have "addressChar (CHR ''.'')" by (simp add: addressChar_def)
    ultimately show ?thesis using s1 True by simp
  next
    case False
    with s1 show ?thesis by simp
  qed
qed

lemma parseIPv6Loop_chars:
  "parseIPv6Loop i e s = Some (i', e', rest) \<Longrightarrow>
   \<exists>pre. s = pre @ rest \<and> list_all addressChar pre"
proof (induction i e s rule: parseIPv6Loop.induct)
  case (1 i ellipsis s)
  let ?c = "fst (snd (xtoi s))"
  let ?d = "drop ?c s"
  note simps = parseIPv6Loop.simps [of i ellipsis s]
  have colonChar: "addressChar (CHR '':'')" by (simp add: addressChar_def)
  show ?case
  proof (cases "i < 16")
    case False
    with "1.prems" have "rest = s"
      by (subst (asm) simps) (simp add: Let_def)
    then show ?thesis by simp
  next
    case small: True
    with "1.prems" have ok: "snd (snd (xtoi s))" and n: "\<not> fst (xtoi s) > 0xFFFF"
      by (subst (asm) simps, simp add: Let_def split: if_splits)+
    from xtoi_digits [OF ok] have c: "?c \<le> length s" and hex: "list_all addressChar (take ?c s)"
      by simp_all
    show ?thesis
    proof (cases "?c < length s \<and> s ! ?c = CHR ''.''")
      case True
      with "1.prems" small ok n have "parseIPv4 s" and "rest = []"
        by (subst (asm) simps, simp add: Let_def split: if_splits)+
      then show ?thesis
        by (simp add: parseIPv4_def parseIPv4Loop_chars)
    next
      case nodot: False
      show ?thesis
      proof (cases "?d = []")
        case True
        with "1.prems" small ok n nodot have "rest = []"
          by (subst (asm) simps) (simp add: Let_def split: if_splits)
        moreover from True hex have "list_all addressChar s"
          using take_drop_chars [of ?c s] by simp
        ultimately show ?thesis by simp
      next
        case more: False
        with "1.prems" small ok n nodot
        have colon: "hd ?d = CHR '':''" and long: "length ?d \<noteq> 1"
          by (subst (asm) simps, simp add: Let_def split: if_splits)+
        from more colon obtain t where d: "?d = CHR '':'' # t" by (cases ?d) auto
        with long have t: "t \<noteq> []" by auto
        have s: "s = take ?c s @ CHR '':'' # t"
          using d append_take_drop_id [of ?c s] by simp
        show ?thesis
        proof (cases "hd t = CHR '':''")
          case True
          with t obtain u where u: "t = CHR '':'' # u" by (cases t) auto
          show ?thesis
          proof (cases "u = []")
            case True
            with "1.prems" small ok n nodot more d u have "rest = []"
              by (subst (asm) simps) (simp add: Let_def split: if_splits)
            moreover have "list_all addressChar (take ?c s @ CHR '':'' # t)"
              using hex u True colonChar by simp
            ultimately show ?thesis using s by simp
          next
            case False
            with "1.prems" small ok n nodot more d u
            have none: "ellipsis = None" and
              rec: "parseIPv6Loop (i + 2) (Some (i + 2)) u = Some (i', e', rest)"
              by (subst (asm) simps, simp add: Let_def split: if_splits)+
            have "\<exists>pre. tl (tl ?d) = pre @ rest \<and> list_all addressChar pre"
              by (rule "1.IH"(1) [OF refl refl refl])
                (use small ok n nodot more d u False none rec in simp_all)
            then obtain pre where pre: "u = pre @ rest" "list_all addressChar pre"
              using d u by auto
            have "s = (take ?c s @ CHR '':'' # CHR '':'' # pre) @ rest"
              using s u pre by simp
            moreover have "list_all addressChar (take ?c s @ CHR '':'' # CHR '':'' # pre)"
              using hex pre colonChar by simp
            ultimately show ?thesis by blast
          qed
        next
          case False
          with "1.prems" small ok n nodot more d
          have rec: "parseIPv6Loop (i + 2) ellipsis t = Some (i', e', rest)"
            by (subst (asm) simps) (simp add: Let_def split: if_splits)
          have "\<exists>pre. tl ?d = pre @ rest \<and> list_all addressChar pre"
            by (rule "1.IH"(2) [OF refl refl refl])
              (use small ok n nodot more d t False rec in simp_all)
          then obtain pre where pre: "t = pre @ rest" "list_all addressChar pre"
            using d by auto
          have "s = (take ?c s @ CHR '':'' # pre) @ rest"
            using s pre by simp
          moreover have "list_all addressChar (take ?c s @ CHR '':'' # pre)"
            using hex pre colonChar by simp
          ultimately show ?thesis by blast
        qed
      qed
    qed
  qed
qed

lemma parseIPv6_chars:
  assumes "parseIPv6 s"
  shows "list_all addressChar s"
proof -
  define lead where "lead = (length s \<ge> 2 \<and> s ! 0 = CHR '':'' \<and> s ! 1 = CHR '':'')"
  define s0 where "s0 = (if lead then drop 2 s else s)"
  have colonChar: "addressChar (CHR '':'')" by (simp add: addressChar_def)
  have unfolded: "parseIPv6 s =
      (if lead \<and> s0 = [] then True
       else (case parseIPv6Loop 0 (if lead then Some 0 else None) s0 of
               None \<Rightarrow> False
             | Some (i, ellipsis, rest) \<Rightarrow>
                 if rest \<noteq> [] then False
                 else if i < 16 then ellipsis \<noteq> None
                 else ellipsis = None))"
    unfolding parseIPv6_def lead_def s0_def Let_def by (rule refl)
  have s0: "list_all addressChar s0"
  proof (cases "lead \<and> s0 = []")
    case True
    then show ?thesis by simp
  next
    case False
    with assms unfolded obtain i e rest where
      loop: "parseIPv6Loop 0 (if lead then Some 0 else None) s0 = Some (i, e, rest)" and
      rest: "rest = []"
      by (auto split: option.splits if_splits)
    from parseIPv6Loop_chars [OF loop] rest show ?thesis by auto
  qed
  show ?thesis
  proof (cases lead)
    case True
    then obtain t where "s = CHR '':'' # CHR '':'' # t"
      unfolding lead_def by (cases s; cases "tl s") auto
    with s0 True colonChar show ?thesis by (simp add: s0_def)
  next
    case False
    with s0 show ?thesis by (simp add: s0_def)
  qed
qed

lemma net_ParseIP_scan_chars: "net_ParseIP_scan s t \<Longrightarrow> list_all addressChar s"
  by (induction t) (auto simp: parseIPv4_def parseIPv4Loop_chars parseIPv6_chars split: if_splits)

lemma IsIP_chars: "IsIP s \<Longrightarrow> list_all addressChar s"
  by (simp add: IsIP_def net_ParseIP_scan_chars)

lemma extension_letters:
  "list_all (\<lambda>ext. list_ex (\<lambda>l. l \<in> set ''pjvtgiw'') ext) (imageExtensions @ fontExtensions)"
  by code_simp

lemma letters_not_addressChar:
  "list_all (\<lambda>l. \<not> addressChar l \<and> \<not> addressChar (toUpperASCII l)) ''pjvtgiw''"
  by code_simp

lemma hasExtension_not_IP:
  assumes "ext \<in> set (imageExtensions @ fontExtensions)" and "hasExtension seg ext"
  shows "\<not> IsIP seg"
proof
  assume "IsIP seg"
  then have chars: "\<forall>c\<in>set seg. addressChar c"
    using IsIP_chars by (simp add: list_all_iff)
  from extension_letters assms(1) obtain l where l: "l \<in> set ext" "l \<in> set ''pjvtgiw''"
    unfolding list_all_iff list_ex_iff by blast
  from hasExtension_letters [OF assms(2), of l] l(1)
  obtain c where c: "c \<in> set seg" "toLowerASCII c = l" by auto
  from letters_not_addressChar l(2) have "\<not> addressChar l" "\<not> addressChar (toUpperASCII l)"
    unfolding list_all_iff by blast+
  with toLowerASCII_cases [OF c(2)] have "\<not> addressChar c" by auto
  with chars c(1) show False by blast
qed

section \<open>A font is no image\<close>

lemma plain_letters:
  "list_all (\<lambda>p. toLowerASCII p = p \<and> toLowerASCII (toUpperASCII p) = p \<and> p \<noteq> CHR ''s'')
     ''.abcdefghijklmnopqrtuvwxyz''"
  by code_simp

lemma matchFold_plain:
  "set pat \<subseteq> set ''.abcdefghijklmnopqrtuvwxyz'' \<Longrightarrow> matchFold pat s \<Longrightarrow>
   map toLowerASCII s = pat"
proof (induction pat arbitrary: s)
  case Nil
  then show ?case by simp
next
  case (Cons p ps)
  from Cons.prems(1) have "p \<in> set ''.abcdefghijklmnopqrtuvwxyz''" by simp
  with plain_letters
  have p: "toLowerASCII p = p" "toLowerASCII (toUpperASCII p) = p" "p \<noteq> CHR ''s''"
    unfolding list_all_iff by blast+
  from Cons.prems(2) obtain c cs where s: "s = c # cs" by (cases s) auto
  with Cons.prems(2) p(3) have c: "c = p \<or> c = toUpperASCII p" and cs: "matchFold ps cs"
    by auto
  from Cons.prems(1) have "set ps \<subseteq> set ''.abcdefghijklmnopqrtuvwxyz''" by simp
  from Cons.IH [OF this cs] c p s show ?case by auto
qed

lemma endsWithFold_plain:
  assumes "set (CHR ''.'' # ext) \<subseteq> set ''.abcdefghijklmnopqrtuvwxyz''"
    and "endsWithFold seg (CHR ''.'' # ext)"
  shows "hasExtension seg ext"
proof -
  from endsWithFold_suffix [OF assms(2)] obtain k where
    k: "k \<le> length seg" and m: "matchFold (CHR ''.'' # ext) (drop k seg)"
    by blast
  from matchFold_plain [OF assms(1) m] have low: "map toLowerASCII (drop k seg) = CHR ''.'' # ext" .
  then have "length (drop k seg) = Suc (length ext)"
    using length_map [of toLowerASCII "drop k seg"] by simp
  with k have "k = length seg - Suc (length ext)" "length ext < length seg"
    by simp_all
  with low show ?thesis by (simp add: hasExtension_def)
qed

lemma hasExtension_two:
  assumes "hasExtension seg a" and "hasExtension seg b" and "length b \<le> length a"
  shows "CHR ''.'' # b = drop (length a - length b) (CHR ''.'' # a)"
proof -
  let ?low = "map toLowerASCII seg"
  from assms have a: "drop (length seg - Suc (length a)) ?low = CHR ''.'' # a"
    and b: "drop (length seg - Suc (length b)) ?low = CHR ''.'' # b"
    and la: "length a < length seg"
    by (simp_all add: hasExtension_def drop_map)
  from la assms(3)
  have "length seg - Suc (length b) = (length a - length b) + (length seg - Suc (length a))"
    by simp
  then have "drop (length seg - Suc (length b)) ?low =
             drop (length a - length b) (drop (length seg - Suc (length a)) ?low)"
    by (simp only: drop_drop)
  with a b show ?thesis by simp
qed

lemma endings_differ:
  "list_all (\<lambda>a. list_all (\<lambda>b.
       (length b \<le> length a \<longrightarrow> CHR ''.'' # b \<noteq> drop (length a - length b) (CHR ''.'' # a)) \<and>
       (length a \<le> length b \<longrightarrow> CHR ''.'' # a \<noteq> drop (length b - length a) (CHR ''.'' # b)))
     fontExtensions) [''png'', ''jpg'', ''jpeg'', ''tif'', ''tiff'', ''gif'', ''ico'']"
  by code_simp

lemma plain_extensions:
  "list_all (\<lambda>a. set (CHR ''.'' # a) \<subseteq> set ''.abcdefghijklmnopqrtuvwxyz'')
     [''png'', ''jpg'', ''jpeg'', ''tif'', ''tiff'', ''gif'', ''ico'']"
  by simp

lemma matchFold_last:
  "matchFold pat s \<Longrightarrow> pat \<noteq> [] \<Longrightarrow> last pat \<noteq> CHR ''s'' \<Longrightarrow>
   s \<noteq> [] \<and> (last s = last pat \<or> last s = toUpperASCII (last pat))"
proof (induction pat arbitrary: s)
  case Nil
  then show ?case by simp
next
  case (Cons p ps)
  from Cons.prems(1) obtain c cs where s: "s = c # cs" by (cases s) auto
  show ?case
  proof (cases "ps = []")
    case True
    with Cons.prems s show ?thesis by auto
  next
    case False
    with Cons.prems(3) have lastps: "last ps \<noteq> CHR ''s''" by simp
    from Cons.prems(1) s have "matchFold ps cs \<or> (cs \<noteq> [] \<and> matchFold ps (tl cs))"
      by auto
    then show ?thesis
    proof
      assume "matchFold ps cs"
      from Cons.IH [OF this False lastps] s False show ?thesis by simp
    next
      assume a: "cs \<noteq> [] \<and> matchFold ps (tl cs)"
      then obtain d ds where cs: "cs = d # ds" by (cases cs) auto
      with a have "matchFold ps ds" by simp
      from Cons.IH [OF this False lastps] s cs False show ?thesis by simp
    qed
  qed
qed

lemma hasExtension_last:
  assumes "hasExtension seg ext" and "ext \<noteq> []"
  shows "seg \<noteq> [] \<and> toLowerASCII (last seg) = last ext"
proof -
  let ?d = "drop (length seg - Suc (length ext)) seg"
  from assms have low: "map toLowerASCII ?d = CHR ''.'' # ext" and len: "length ext < length seg"
    by (simp_all add: hasExtension_def)
  then have d: "?d \<noteq> []" by auto
  then have "last (map toLowerASCII ?d) = toLowerASCII (last ?d)"
    by (simp add: last_map)
  with low assms(2) have "toLowerASCII (last ?d) = last ext" by simp
  moreover from len have "last ?d = last seg" by (simp add: last_drop)
  ultimately show ?thesis using len by auto
qed

lemma font_not_image:
  assumes "ext \<in> set fontExtensions" and "hasExtension seg ext"
  shows "\<not> imageExtensionRegex seg"
proof
  assume "imageExtensionRegex seg"
  then obtain a where a: "a \<in> set [''png'', ''jpg'', ''jpeg'', ''svg'', ''tif'', ''tiff'', ''gif'', ''ico'']"
    and ends: "endsWithFold seg (CHR ''.'' # a)"
    unfolding imageExtensionRegex_def list_ex_iff by blast
  show False
  proof (cases "a = ''svg''")
    case True
    from endsWithFold_suffix [OF ends] obtain k where
      k: "k \<le> length seg" and m: "matchFold ''.svg'' (drop k seg)"
      using True by auto
    have svg: "''.svg'' \<noteq> []" "last ''.svg'' \<noteq> CHR ''s''" "last ''.svg'' = CHR ''g''"
      by simp_all
    from matchFold_last [OF m svg(1) svg(2)] have d: "drop k seg \<noteq> []"
      and g: "last (drop k seg) = CHR ''g'' \<or> last (drop k seg) = toUpperASCII (CHR ''g'')"
      unfolding svg(3) by blast+
    from d have "last (drop k seg) = last seg" by (simp add: last_drop)
    with g have "toLowerASCII (last seg) = CHR ''g''"
      by (auto simp: toLowerASCII_def toUpperASCII_def)
    moreover from assms have "last ext = CHR ''f''"
      by (auto simp: fontExtensions_def)
    moreover from assms have "ext \<noteq> []"
      by (auto simp: fontExtensions_def)
    ultimately show False
      using hasExtension_last [OF assms(2)] by simp
  next
    case False
    with a have plain: "a \<in> set [''png'', ''jpg'', ''jpeg'', ''tif'', ''tiff'', ''gif'', ''ico'']"
      by auto
    with plain_extensions have "set (CHR ''.'' # a) \<subseteq> set ''.abcdefghijklmnopqrtuvwxyz''"
      unfolding list_all_iff by blast
    from endsWithFold_plain [OF this ends] have ha: "hasExtension seg a" .
    from endings_differ plain assms(1)
    have differ:
      "length ext \<le> length a \<longrightarrow> CHR ''.'' # ext \<noteq> drop (length a - length ext) (CHR ''.'' # a)"
      "length a \<le> length ext \<longrightarrow> CHR ''.'' # a \<noteq> drop (length ext - length a) (CHR ''.'' # ext)"
      unfolding list_all_iff by blast+
    show False
    proof (cases "length ext \<le> length a")
      case True
      with differ(1) hasExtension_two [OF ha assms(2) True] show False by simp
    next
      case False
      then have le: "length a \<le> length ext" by simp
      with differ(2) hasExtension_two [OF assms(2) ha le] show False by simp
    qed
  qed
qed

section \<open>Images and fonts in the last segment\<close>

lemma sanitizeItems_nth:
  "i < length segs \<Longrightarrow> sanitizeItems rn n 0 segs ! i = sanitizeItem rn n i (segs ! i)"
  by (simp add: sanitizeItems_map)

lemma sanitizeItems_last:
  assumes "segs \<noteq> []"
  shows "last (sanitizeItems rn (length segs) 0 segs) =
         sanitizeItem rn (length segs) (length segs - 1) (last segs)"
proof -
  have len: "length (sanitizeItems rn (length segs) 0 segs) = length segs"
    by (simp add: sanitizeItems_map)
  with assms have "sanitizeItems rn (length segs) 0 segs \<noteq> []" by auto
  then have "last (sanitizeItems rn (length segs) 0 segs) =
             sanitizeItems rn (length segs) 0 segs ! (length segs - 1)"
    by (simp add: last_conv_nth len)
  with assms show ?thesis
    by (simp add: sanitizeItems_nth last_conv_nth)
qed

lemma sanitizeItem_not_last:
  "Suc i \<noteq> n \<Longrightarrow>
   sanitizeItem rn n i seg =
   sanitizeItem (rn\<lparr>sanitizeImages := False, sanitizeFonts := False\<rparr>) n i seg"
  by (simp add: sanitizeItem_def cong: if_cong)

lemma hasExtension_nothing_else:
  assumes "ext \<in> set (imageExtensions @ fontExtensions)" and "hasExtension seg ext"
  shows "seg \<noteq> [] \<and> \<not> IsMD5 seg \<and> \<not> IsSHA1 seg \<and> \<not> IsSHA256 seg \<and> \<not> IsNumeric seg \<and>
         \<not> IsHexadecimal seg \<and> \<not> IsUUID seg \<and> \<not> IsUUIDv4 seg \<and> \<not> IsIP seg"
proof -
  from hasExtension_dot [OF assms(2)] have dot: "CHR ''.'' \<in> set seg" .
  then have "seg \<noteq> []" by auto
  with dotted_not_hash_or_number [OF dot] dotted_not_uuid [OF dot] hasExtension_not_IP [OF assms]
  show ?thesis by simp
qed

lemma sanitizeItem_image:
  assumes "sanitizeImages rn" and "ext \<in> set imageExtensions" and "hasExtension seg ext"
  shows "sanitizeItem rn (Suc i) i seg = '':image''"
proof -
  from assms(2) have "ext \<in> set (imageExtensions @ fontExtensions)" by simp
  from hasExtension_nothing_else [OF this assms(3)] hasExtension_image [OF assms(2,3)] assms(1)
  show ?thesis by (simp add: sanitizeItem_def imagePlaceholder_def)
qed

lemma sanitizeItem_font:
  assumes "sanitizeFonts rn" and "ext \<in> set fontExtensions" and "hasExtension seg ext"
  shows "sanitizeItem rn (Suc i) i seg = '':font''"
proof -
  from assms(2) have "ext \<in> set (imageExtensions @ fontExtensions)" by simp
  from hasExtension_nothing_else [OF this assms(3)] hasExtension_font [OF assms(2,3)]
    font_not_image [OF assms(2,3)] assms(1)
  show ?thesis by (simp add: sanitizeItem_def fontPlaceholder_def)
qed

text \<open>
  C5, amended.  A normalizer from the constructor rewrites a non-empty path by its rules,
  cleans and splits it, and runs the loop over the items.  In that loop an item that is
  not the last comes out as it would with the images and fonts toggles off.  The last
  item becomes \<open>:image\<close> when images are sanitized and it ends with a dot and an image
  extension in any case of letters, and \<open>:font\<close> when fonts are sanitized and it ends
  with a dot and a font extension; no heuristic of higher priority matches such an item.
\<close>

theorem extensions_count_in_the_last_item_only:
  "(NewFromConfig rc config = Inr rn \<and> rawPath \<noteq> [] \<longrightarrow>
      normalizePath rc rn rawPath =
        Inr (strings_Join
               (sanitizeItems rn
                  (length (strings_Split (path_Clean (applyRules (replaceRules rn) rawPath))
                     (CHR ''/''))) 0
                  (strings_Split (path_Clean (applyRules (replaceRules rn) rawPath)) (CHR ''/'')))
               ''/'')) \<and>
   (\<forall>i. Suc i < length segs \<longrightarrow>
      sanitizeItems rn (length segs) 0 segs ! i =
      sanitizeItems (rn\<lparr>sanitizeImages := False, sanitizeFonts := False\<rparr>) (length segs) 0 segs ! i) \<and>
   (segs \<noteq> [] \<and> sanitizeImages rn \<and> ext \<in> set imageExtensions \<and> hasExtension (last segs) ext \<longrightarrow>
      last (sanitizeItems rn (length segs) 0 segs) = '':image'') \<and>
   (segs \<noteq> [] \<and> sanitizeFonts rn \<and> ext \<in> set fontExtensions \<and> hasExtension (last segs) ext \<longrightarrow>
      last (sanitizeItems rn (length segs) 0 segs) = '':font'')"
proof (intro conjI impI allI)
  assume a: "NewFromConfig rc config = Inr rn \<and> rawPath \<noteq> []"
  then have "\<forall>r\<in>set (replaceRules rn). regexpCompiled r \<noteq> None"
    using NewFromConfig_rules [of rc config rn] by blast
  from normalizePath_compiled [OF this] a
  show "normalizePath rc rn rawPath =
        Inr (strings_Join
               (sanitizeItems rn
                  (length (strings_Split (path_Clean (applyRules (replaceRules rn) rawPath))
                     (CHR ''/''))) 0
                  (strings_Split (path_Clean (applyRules (replaceRules rn) rawPath)) (CHR ''/'')))
               ''/'')"
    by (simp add: sanitizeSegments_def)
next
  fix i
  assume "Suc i < length segs"
  then show "sanitizeItems rn (length segs) 0 segs ! i =
      sanitizeItems (rn\<lparr>sanitizeImages := False, sanitizeFonts := False\<rparr>) (length segs) 0 segs ! i"
    using sanitizeItem_not_last [of i "length segs" rn "segs ! i"]
    by (simp add: sanitizeItems_nth)
next
  assume a: "segs \<noteq> [] \<and> sanitizeImages rn \<and> ext \<in> set imageExtensions \<and>
    hasExtension (last segs) ext"
  then have "Suc (length segs - 1) = length segs" by simp
  with a sanitizeItem_image [of rn ext "last segs" "length segs - 1"]
  show "last (sanitizeItems rn (length segs) 0 segs) = '':image''"
    by (simp add: sanitizeItems_last)
next
  assume a: "segs \<noteq> [] \<and> sanitizeFonts rn \<and> ext \<in> set fontExtensions \<and>
    hasExtension (last segs) ext"
  then have "Suc (length segs - 1) = length segs" by simp
  with a sanitizeItem_font [of rn ext "last segs" "length segs - 1"]
  show "last (sanitizeItems rn (length segs) 0 segs) = '':font''"
    by (simp add: sanitizeItems_last)
qed

theorem extensions_count_in_the_last_item_only_witness:
  "normalizePath literalCompile exampleNormalizer ''/images.png/detail'' =
     Inr ''/images.png/detail'' \<and>
   normalizePath literalCompile exampleNormalizer ''/detail/images.png'' =
     Inr ''/detail/:image'' \<and>
   sanitizeItems exampleNormalizer 3 0 [[], ''images.png'', ''detail''] ! 1 =
     sanitizeItems (exampleNormalizer\<lparr>sanitizeImages := False, sanitizeFonts := False\<rparr>) 3 0
       [[], ''images.png'', ''detail''] ! 1 \<and>
   last (sanitizeItems exampleNormalizer 3 0 [[], ''detail'', ''images.PNG'']) = '':image'' \<and>
   last (sanitizeItems exampleNormalizer 3 0 [[], ''fonts'', ''Roboto.Woff'']) = '':font''"
proof -
  note t = extensions_count_in_the_last_item_only
    [where rc = literalCompile and config = exampleConfig and rn = exampleNormalizer]
  have on: "sanitizeImages exampleNormalizer" "sanitizeFonts exampleNormalizer"
    by (simp_all add: exampleNormalizer_def)
  have r1: "applyRules (replaceRules exampleNormalizer) ''/images.png/detail'' = ''/images.png/detail''"
    by code_simp
  have r2: "applyRules (replaceRules exampleNormalizer) ''/detail/images.png'' = ''/detail/images.png''"
    by code_simp
  have s1: "strings_Join (sanitizeItems exampleNormalizer
        (length (strings_Split (path_Clean ''/images.png/detail'') (CHR ''/''))) 0
        (strings_Split (path_Clean ''/images.png/detail'') (CHR ''/''))) ''/'' =
      ''/images.png/detail''"
    by code_simp
  have s2: "strings_Join (sanitizeItems exampleNormalizer
        (length (strings_Split (path_Clean ''/detail/images.png'') (CHR ''/''))) 0
        (strings_Split (path_Clean ''/detail/images.png'') (CHR ''/''))) ''/'' =
      ''/detail/:image''"
    by code_simp
  have n1: "normalizePath literalCompile exampleNormalizer ''/images.png/detail'' =
              Inr ''/images.png/detail''"
    using t [where rawPath = "''/images.png/detail''", THEN conjunct1, THEN mp] example_constructed
    by (simp only: r1 s1) simp
  have n2: "normalizePath literalCompile exampleNormalizer ''/detail/images.png'' =
              Inr ''/detail/:image''"
    using t [where rawPath = "''/detail/images.png''", THEN conjunct1, THEN mp] example_constructed
    by (simp only: r2 s2) simp
  have mid: "sanitizeItems exampleNormalizer 3 0 [[], ''images.png'', ''detail''] ! 1 =
     sanitizeItems (exampleNormalizer\<lparr>sanitizeImages := False, sanitizeFonts := False\<rparr>) 3 0
       [[], ''images.png'', ''detail''] ! 1"
    using t [where segs = "[[], ''images.png'', ''detail'']",
             THEN conjunct2, THEN conjunct1, rule_format, of 1]
    by (simp add: numeral_3_eq_3)
  have png: "''png'' \<in> set imageExtensions" "hasExtension ''images.PNG'' ''png''"
    by code_simp+
  have woff: "''woff'' \<in> set fontExtensions" "hasExtension ''Roboto.Woff'' ''woff''"
    by code_simp+
  have image: "last (sanitizeItems exampleNormalizer 3 0 [[], ''detail'', ''images.PNG'']) = '':image''"
    using t [where segs = "[[], ''detail'', ''images.PNG'']" and ext = "''png''",
             THEN conjunct2, THEN conjunct2, THEN conjunct1, THEN mp] on png
    by (simp add: numeral_3_eq_3)
  have font: "last (sanitizeItems exampleNormalizer 3 0 [[], ''fonts'', ''Roboto.Woff'']) = '':font''"
    using t [where segs = "[[], ''fonts'', ''Roboto.Woff'']" and ext = "''woff''",
             THEN conjunct2, THEN conjunct2, THEN conjunct2, THEN mp] on woff
    by (simp add: numeral_3_eq_3)
  from n1 n2 mid image font show ?thesis by simp
qed

theorem segment_before_a_trailing_slash_is_treated_as_last:
  "sanitizeImages exampleNormalizer \<and>
   strings_Split ''/images.png/'' (CHR ''/'') = [[], ''images.png'', []] \<and>
   normalizePath literalCompile exampleNormalizer ''/images.png/'' = Inr ''/:image'' \<and>
   normalizePath literalCompile exampleNormalizer ''/detail/xpng'' = Inr ''/detail/xpng''"
  by code_simp

end
